theory Spec2Isabelle
  imports Main "HOL-Library.Monad_Syntax"
begin

section \<open>The data model of index.ts\<close>

text \<open>
  Every object the library allocates with \<^verbatim>\<open>new Subscriber(...)\<close> lives in a store; an
  address is the position of the object in that store. Objects of the caller (the
  handlers of a partial observer, teardown procedures, unsubscribable objects) are opaque
  to the library: all the library ever does with them is to call them, so a call is
  recorded, with its arguments and the virtual time, in a trace. The values of all streams
  have one type \<open>'v\<close>, as they have at run time, where the type parameters of the source
  are erased; the index \<^verbatim>\<open>map\<close> counts with is a natural number.
\<close>

type_synonym addr = nat

text \<open>
  \<^verbatim>\<open>Exclude<TeardownLogic, void>\<close>: a procedure of the caller, an \<^verbatim>\<open>Unsubscribable\<close> of the
  caller, or a \<^verbatim>\<open>Subscription\<close> of the library. \<^verbatim>\<open>TeardownLogic\<close> itself is
  \<open>teardown option\<close>, \<open>None\<close> for \<^verbatim>\<open>void\<close>.
\<close>

datatype teardown =
    TdFunction string
  | TdUnsubscribable string
  | TdSubscription addr

text \<open>What the caller's code is seen to receive.\<close>

datatype 'v event =
    NextCalled string 'v
  | ErrorCalled string 'v
  | CompleteCalled string
  | FunctionCalled string "'v list"
  | UnsubscribeCalled string

text \<open>
  The observers a \<^verbatim>\<open>Subscriber\<close> wraps. \<open>Partial name n e c\<close> is an object of the caller
  that defines \<^verbatim>\<open>next\<close>, \<^verbatim>\<open>error\<close>, \<^verbatim>\<open>complete\<close> as the three flags say.
  \<open>MapInline project i subscriber\<close> is the object literal of \<^verbatim>\<open>map\<close> (index.ts:152), a
  closure over \<^verbatim>\<open>project\<close>, the variable \<^verbatim>\<open>i\<close> and the downstream \<^verbatim>\<open>subscriber\<close>;
  \<open>DebounceInline time delay subscriber\<close> is the object literal of \<^verbatim>\<open>debounceTime\<close>
  (index.ts:173), a closure over the variable \<^verbatim>\<open>time\<close>, \<^verbatim>\<open>delay\<close> and \<^verbatim>\<open>subscriber\<close>.
  Captured variables are cells of the store, named by their index.
\<close>

datatype 'v observer =
    Partial string bool bool bool
  | MapInline "'v \<Rightarrow> nat \<Rightarrow> 'v" nat addr
  | DebounceInline nat nat addr

text \<open>A notification: which of the three methods of an \<^verbatim>\<open>Observer\<close> is called, and with what.\<close>

datatype 'v notification = Next 'v | Error 'v | Complete

text \<open>
  \<^verbatim>\<open>class Subscription\<close> has the one field \<^verbatim>\<open>_teardowns\<close>; \<^verbatim>\<open>class Subscriber\<close> extends it
  with \<^verbatim>\<open>isStopped\<close>, \<^verbatim>\<open>type\<close> and \<^verbatim>\<open>observer\<close>.
\<close>

record Subscription =
  teardowns :: "teardown list"

record 'v Subscriber = Subscription +
  isStopped :: bool
  type :: string
  observer :: "'v observer"

text \<open>
  The store. \<open>counters\<close> holds the variables \<^verbatim>\<open>let i\<close> of the activations of a \<^verbatim>\<open>map\<close>
  producer, \<open>slots\<close> the variables \<^verbatim>\<open>let time\<close> of the calls of \<^verbatim>\<open>debounceTime\<close>.
  \<open>timers\<close> is the host's list of pending timeouts in creation order, each a handle, the
  virtual time it is due at, and its callback \<^verbatim>\<open>() => target.method(payload)\<close>;
  \<open>issued\<close> counts the handles handed out so far and \<open>now\<close> is the virtual clock.
\<close>

record 'v world =
  heap :: "'v Subscriber list"
  counters :: "nat list"
  slots :: "nat list"
  timers :: "(nat \<times> nat \<times> addr \<times> 'v notification) list"
  issued :: nat
  now :: nat
  trace :: "(nat \<times> 'v event) list"

definition emit :: "'v event \<Rightarrow> 'v world \<Rightarrow> 'v world" where
  "emit e w = w\<lparr>trace := trace w @ [(now w, e)]\<rparr>"

subsection \<open>The host's timer primitive\<close>

text \<open>
  \<^verbatim>\<open>setTimeout\<close> returns a fresh positive handle (the source keeps it in a \<^verbatim>\<open>number\<close> and
  tests it for truthiness, so handles are the browser's positive integers) and
  \<^verbatim>\<open>clearTimeout\<close> drops the pending timeout of that handle, if there is one.
\<close>

definition setTimeout :: "addr \<times> 'v notification \<Rightarrow> nat \<Rightarrow> 'v world \<Rightarrow> nat \<times> 'v world" where
  "setTimeout callback delay w =
     (let handle = Suc (issued w)
      in (handle, w\<lparr>timers := timers w @ [(handle, now w + delay, callback)], issued := handle\<rparr>))"

definition clearTimeout :: "nat \<Rightarrow> 'v world \<Rightarrow> 'v world" where
  "clearTimeout handle w = w\<lparr>timers := filter (\<lambda>t. fst t \<noteq> handle) (timers w)\<rparr>"

section \<open>pipeFromArray\<close>

definition pipeFromArray :: "('a \<Rightarrow> 'a) list \<Rightarrow> 'a \<Rightarrow> 'a" where
  "pipeFromArray fns =
     (if length fns = 0 then (\<lambda>input. input)
      else if length fns = 1 then fns ! 0
      else (\<lambda>input. foldl (\<lambda>prev fn. fn prev) input fns))"

section \<open>Subscription\<close>

text \<open>\<^verbatim>\<open>Array.prototype.forEach\<close> over a store-passing callback that may fail to return.\<close>

fun forEach :: "('a \<Rightarrow> 's \<Rightarrow> 's option) \<Rightarrow> 'a list \<Rightarrow> 's \<Rightarrow> 's option" where
  "forEach f [] s = Some s"
| "forEach f (x # xs) s = (case f x s of None \<Rightarrow> None | Some s' \<Rightarrow> forEach f xs s')"

text \<open>
  \<^verbatim>\<open>add(teardown)\<close>: \<^verbatim>\<open>if (teardown) this._teardowns.push(teardown)\<close>. Functions and objects
  are truthy, \<^verbatim>\<open>void\<close> is not.
\<close>

definition Subscription_add ::
  "teardown option \<Rightarrow> 'z Subscription_scheme \<Rightarrow> 'z Subscription_scheme" where
  "Subscription_add teardown this =
     (case teardown of
        None \<Rightarrow> this
      | Some t \<Rightarrow> this\<lparr>teardowns := teardowns this @ [t]\<rparr>)"

definition add :: "addr \<Rightarrow> teardown option \<Rightarrow> 'v world \<Rightarrow> 'v world option" where
  "add this teardown w =
     (if this < length (heap w)
      then Some (w\<lparr>heap := (heap w)[this := Subscription_add teardown (heap w ! this)]\<rparr>)
      else None)"

text \<open>
  \<^verbatim>\<open>unsubscribe()\<close>. \<open>call_teardown\<close> is the callback of its \<^verbatim>\<open>forEach\<close>: a function is
  called, with no argument; of anything else the method \<^verbatim>\<open>unsubscribe\<close> is called, which
  for a subscription of the library is the method being defined. The first argument of
  \<open>Subscription_unsubscribe\<close> bounds the depth of nested calls: a registry can hold a
  subscription that holds the registry, and then the source recurses until the stack is
  exhausted. \<open>None\<close> is a call that does not return (the bound is reached, or the address is
  not one of the store, which no reference of the source can be).
\<close>

fun call_teardown ::
  "(addr \<Rightarrow> 'v world \<Rightarrow> 'v world option) \<Rightarrow> teardown \<Rightarrow> 'v world \<Rightarrow> 'v world option" where
  "call_teardown unsubscribe (TdFunction name) w = Some (emit (FunctionCalled name []) w)"
| "call_teardown unsubscribe (TdUnsubscribable name) w = Some (emit (UnsubscribeCalled name) w)"
| "call_teardown unsubscribe (TdSubscription other) w = unsubscribe other w"

fun Subscription_unsubscribe :: "nat \<Rightarrow> addr \<Rightarrow> 'v world \<Rightarrow> 'v world option" where
  "Subscription_unsubscribe 0 this w = None"
| "Subscription_unsubscribe (Suc n) this w =
     (if this < length (heap w)
      then forEach (call_teardown (Subscription_unsubscribe n)) (teardowns (heap w ! this)) w
      else None)"

section \<open>Subscriber\<close>

definition has_next :: "'v observer \<Rightarrow> bool" where
  "has_next ob = (case ob of Partial name n e c \<Rightarrow> n | _ \<Rightarrow> True)"

definition has_error :: "'v observer \<Rightarrow> bool" where
  "has_error ob = (case ob of Partial name n e c \<Rightarrow> e | _ \<Rightarrow> True)"

definition has_complete :: "'v observer \<Rightarrow> bool" where
  "has_complete ob = (case ob of Partial name n e c \<Rightarrow> c | _ \<Rightarrow> True)"

definition stop :: "addr \<Rightarrow> 'v world \<Rightarrow> 'v world" where
  "stop this w = w\<lparr>heap := (heap w)[this := (heap w ! this)\<lparr>isStopped := True\<rparr>]\<rparr>"

text \<open>
  \<open>Subscriber_next\<close> is the method of the class; \<open>observer_next\<close> is the call
  \<^verbatim>\<open>this.observer.next(value)\<close>, that is the body of the handler the wrapped observer
  defines. The inline observer of \<^verbatim>\<open>map\<close> runs
  \<^verbatim>\<open>subscriber.next(project(value, i++))\<close>; that of \<^verbatim>\<open>debounceTime\<close> runs
  \<^verbatim>\<open>if (time) clearTimeout(time); time = setTimeout(() => subscriber.next(value), delay)\<close>.
\<close>

fun Subscriber_next :: "nat \<Rightarrow> addr \<Rightarrow> 'v \<Rightarrow> 'v world \<Rightarrow> 'v world option"
and observer_next :: "nat \<Rightarrow> 'v observer \<Rightarrow> 'v \<Rightarrow> 'v world \<Rightarrow> 'v world option" where
  "Subscriber_next 0 this v w = None"
| "Subscriber_next (Suc n) this v w =
     (if this < length (heap w) then
        (if has_next (observer (heap w ! this)) \<and> \<not> isStopped (heap w ! this)
         then observer_next n (observer (heap w ! this)) v w
         else Some w)
      else None)"
| "observer_next n (Partial name nx er co) v w = Some (emit (NextCalled name v) w)"
| "observer_next n (MapInline project i subscriber) v w =
     (if i < length (counters w) then
        Subscriber_next n subscriber (project v (counters w ! i))
          (w\<lparr>counters := (counters w)[i := Suc (counters w ! i)]\<rparr>)
      else None)"
| "observer_next n (DebounceInline time delay subscriber) v w =
     (if time < length (slots w) then
        (let w1 = (if slots w ! time \<noteq> 0 then clearTimeout (slots w ! time) w else w);
             (handle, w2) = setTimeout (subscriber, Next v) delay w1
         in Some (w2\<lparr>slots := (slots w2)[time := handle]\<rparr>))
      else None)"

text \<open>
  \<open>Subscriber_error\<close>: \<^verbatim>\<open>this.isStopped = true\<close>, then the handler if the observer has
  one. The inline observer of \<^verbatim>\<open>map\<close> runs \<^verbatim>\<open>subscriber.error(err)\<close>, that of
  \<^verbatim>\<open>debounceTime\<close> runs \<^verbatim>\<open>clearTimeout(time)\<close> first.
\<close>

fun Subscriber_error :: "nat \<Rightarrow> addr \<Rightarrow> 'v \<Rightarrow> 'v world \<Rightarrow> 'v world option"
and observer_error :: "nat \<Rightarrow> 'v observer \<Rightarrow> 'v \<Rightarrow> 'v world \<Rightarrow> 'v world option" where
  "Subscriber_error 0 this v w = None"
| "Subscriber_error (Suc n) this v w =
     (if this < length (heap w) then
        (let w1 = stop this w in
         if has_error (observer (heap w1 ! this))
         then observer_error n (observer (heap w1 ! this)) v w1
         else Some w1)
      else None)"
| "observer_error n (Partial name nx er co) v w = Some (emit (ErrorCalled name v) w)"
| "observer_error n (MapInline project i subscriber) v w = Subscriber_error n subscriber v w"
| "observer_error n (DebounceInline time delay subscriber) v w =
     (if time < length (slots w)
      then Subscriber_error n subscriber v (clearTimeout (slots w ! time) w)
      else None)"

text \<open>
  \<open>Subscriber_complete\<close>: \<^verbatim>\<open>this.isStopped = true\<close>, the handler if the observer has one,
  and then \<^verbatim>\<open>if (this.unsubscribe) this.unsubscribe()\<close>, whose test is always true: the
  method is inherited from \<^verbatim>\<open>Subscription\<close>.
\<close>

fun Subscriber_complete :: "nat \<Rightarrow> addr \<Rightarrow> 'v world \<Rightarrow> 'v world option"
and observer_complete :: "nat \<Rightarrow> 'v observer \<Rightarrow> 'v world \<Rightarrow> 'v world option" where
  "Subscriber_complete 0 this w = None"
| "Subscriber_complete (Suc n) this w =
     (if this < length (heap w) then
        do {
          let w1 = stop this w;
          w2 \<leftarrow> (if has_complete (observer (heap w1 ! this))
                then observer_complete n (observer (heap w1 ! this)) w1
                else Some w1);
          Subscription_unsubscribe n this w2
        }
      else None)"
| "observer_complete n (Partial name nx er co) w = Some (emit (CompleteCalled name) w)"
| "observer_complete n (MapInline project i subscriber) w = Subscriber_complete n subscriber w"
| "observer_complete n (DebounceInline time delay subscriber) w =
     (if time < length (slots w)
      then Subscriber_complete n subscriber (clearTimeout (slots w ! time) w)
      else None)"

text \<open>A notification delivered to the subscriber at an address.\<close>

fun deliver :: "nat \<Rightarrow> addr \<Rightarrow> 'v notification \<Rightarrow> 'v world \<Rightarrow> 'v world option" where
  "deliver n target (Next v) w = Subscriber_next n target v w"
| "deliver n target (Error v) w = Subscriber_error n target v w"
| "deliver n target Complete w = Subscriber_complete n target w"

section \<open>Observable\<close>

text \<open>
  An \<^verbatim>\<open>Observable\<close> is the pair of its producer \<^verbatim>\<open>_subscribe\<close> and its \<^verbatim>\<open>type\<close>. The producer
  of \<^verbatim>\<open>map\<close> and that of \<^verbatim>\<open>debounceTime\<close> are closures over the upstream observable. A
  producer of the caller is a script: the notifications it sends to the observer it is
  given, at once (\<open>Call\<close>) or from a timeout (\<open>Later delay\<close>, as the demonstration script
  does), and the teardown it returns.
\<close>

datatype 'v step = Call "'v notification" | Later nat "'v notification"

datatype 'v producer =
    Script "'v step list" "teardown option"
  | MapProducer "'v \<Rightarrow> nat \<Rightarrow> 'v" "'v Observable"
  | DebounceProducer nat nat "'v Observable"
and 'v Observable = Observable "'v producer" string

fun run_steps :: "nat \<Rightarrow> 'v step list \<Rightarrow> addr \<Rightarrow> 'v world \<Rightarrow> 'v world option" where
  "run_steps n [] ob w = Some w"
| "run_steps n (Call x # rest) ob w =
     (case deliver n ob x w of None \<Rightarrow> None | Some w' \<Rightarrow> run_steps n rest ob w')"
| "run_steps n (Later delay x # rest) ob w = run_steps n rest ob (snd (setTimeout (ob, x) delay w))"

text \<open>
  \<open>Observable_subscribe\<close>: allocate the subscriber, run the producer on it, add what the
  producer returns, return the subscriber. \<open>call_producer\<close> is \<^verbatim>\<open>this._subscribe(subscriber)\<close>;
  the producer of \<^verbatim>\<open>map\<close> allocates its counter \<^verbatim>\<open>let i = 0\<close> when it is called.
\<close>

fun Observable_subscribe ::
  "nat \<Rightarrow> 'v Observable \<Rightarrow> 'v observer \<Rightarrow> 'v world \<Rightarrow> (addr \<times> 'v world) option"
and call_producer ::
  "nat \<Rightarrow> 'v producer \<Rightarrow> addr \<Rightarrow> 'v world \<Rightarrow> (teardown option \<times> 'v world) option" where
  "Observable_subscribe n (Observable producer ty) ob w =
     (let subscriber = length (heap w);
          w1 = w\<lparr>heap := heap w @
                 [\<lparr>teardowns = [], isStopped = False, type = ty, observer = ob\<rparr>]\<rparr>
      in do {
        (teardown, w2) \<leftarrow> call_producer n producer subscriber w1;
        w3 \<leftarrow> add subscriber teardown w2;
        Some (subscriber, w3)
      })"
| "call_producer n (Script steps result) subscriber w =
     do { w' \<leftarrow> run_steps n steps subscriber w; Some (result, w') }"
| "call_producer n (MapProducer project observable) subscriber w =
     (let i = length (counters w);
          w1 = w\<lparr>counters := counters w @ [0]\<rparr>
      in do {
        (subcription, w2) \<leftarrow> Observable_subscribe n observable (MapInline project i subscriber) w1;
        Some (Some (TdSubscription subcription), w2)
      })"
| "call_producer n (DebounceProducer time delay observable) subscriber w =
     do {
       (subcription, w2) \<leftarrow>
          Observable_subscribe n observable (DebounceInline time delay subscriber) w;
       Some (Some (TdSubscription subcription), w2)
     }"

definition Observable_pipe :: "('v Observable \<Rightarrow> 'v Observable) list \<Rightarrow> 'v Observable \<Rightarrow> 'v Observable" where
  "Observable_pipe operations this = pipeFromArray operations this"

section \<open>Operators\<close>

definition map_op :: "('v \<Rightarrow> nat \<Rightarrow> 'v) \<Rightarrow> 'v Observable \<Rightarrow> 'v Observable" where
  "map_op project = (\<lambda>observable. Observable (MapProducer project observable) ''map'')"

text \<open>
  \<^verbatim>\<open>debounceTime(delay)\<close> allocates its variable \<^verbatim>\<open>let time = 0\<close> when the factory is
  called, before any observable is given to the operator it returns.
\<close>

definition debounceTime ::
  "nat \<Rightarrow> 'v world \<Rightarrow> ('v Observable \<Rightarrow> 'v Observable) \<times> 'v world" where
  "debounceTime delay w =
     (let time = length (slots w)
      in (\<lambda>observable. Observable (DebounceProducer time delay observable) ''debounceTime'',
          w\<lparr>slots := slots w @ [0]\<rparr>))"

section \<open>The host's event loop, in virtual time\<close>

text \<open>
  The pending timeout that fires next: the earliest due, the first created among equals.
\<close>

fun earliest :: "(nat \<times> nat \<times> 'c) list \<Rightarrow> (nat \<times> nat \<times> 'c) option" where
  "earliest [] = None"
| "earliest (t # ts) =
     (case earliest ts of
        None \<Rightarrow> Some t
      | Some u \<Rightarrow> if fst (snd t) \<le> fst (snd u) then Some t else Some u)"

text \<open>
  \<open>run_until k n T\<close> lets the clock run to time \<open>T\<close>: it fires, in order, the timeouts due
  by then (at most \<open>k\<close> of them, each with call depth \<open>n\<close>), the clock standing at the
  time each was due at.
\<close>

fun run_until :: "nat \<Rightarrow> nat \<Rightarrow> nat \<Rightarrow> 'v world \<Rightarrow> 'v world option" where
  "run_until 0 n T w = None"
| "run_until (Suc k) n T w =
     (case earliest (filter (\<lambda>t. fst (snd t) \<le> T) (timers w)) of
        None \<Rightarrow> Some (w\<lparr>now := max (now w) T\<rparr>)
      | Some (handle, due, target, x) \<Rightarrow>
          (case deliver n target x
                  (w\<lparr>timers := filter (\<lambda>t. fst t \<noteq> handle) (timers w),
                     now := max (now w) due\<rparr>) of
             None \<Rightarrow> None
           | Some w' \<Rightarrow> run_until k n T w'))"

section \<open>Clients\<close>

text \<open>
  What a client can do with the library once objects exist: call a method of a subscriber
  it holds, subscribe to an observable, or let virtual time pass. \<open>perform_all\<close> runs a
  sequence of such requests; it stands for everything that happens after some moment.
\<close>

datatype 'v request =
    DoNext addr 'v
  | DoError addr 'v
  | DoComplete addr
  | DoUnsubscribe addr
  | DoAdd addr "teardown option"
  | DoSubscribe "'v Observable" "'v observer"
  | DoWait nat

fun perform :: "nat \<Rightarrow> 'v request \<Rightarrow> 'v world \<Rightarrow> 'v world option" where
  "perform n (DoNext a v) w = Subscriber_next n a v w"
| "perform n (DoError a v) w = Subscriber_error n a v w"
| "perform n (DoComplete a) w = Subscriber_complete n a w"
| "perform n (DoUnsubscribe a) w = Subscription_unsubscribe n a w"
| "perform n (DoAdd a teardown) w = add a teardown w"
| "perform n (DoSubscribe observable ob) w = map_option snd (Observable_subscribe n observable ob w)"
| "perform n (DoWait T) w = run_until n n T w"


definition perform_all :: "nat \<Rightarrow> 'v request list \<Rightarrow> 'v world \<Rightarrow> 'v world option" where
  "perform_all n requests w = forEach (perform n) requests w"


section \<open>What the specification expects\<close>

text \<open>
  The calls an observer of the caller is expected to see when its endpoint is sent a list
  of notifications, by the rules the specification gives for an endpoint (\<open>4.3\<close>):
  a value is forwarded if
  the observer defines \<^verbatim>\<open>next\<close> and the endpoint is not stopped; \<^verbatim>\<open>error\<close> and \<^verbatim>\<open>complete\<close>
  stop the endpoint and are forwarded if the observer defines the handler.
\<close>

fun received ::
  "string \<Rightarrow> bool \<Rightarrow> bool \<Rightarrow> bool \<Rightarrow> bool \<Rightarrow> 'v notification list \<Rightarrow> 'v event list" where
  "received name nx er co stopped [] = []"
| "received name nx er co stopped (Next v # xs) =
     (if nx \<and> \<not> stopped then [NextCalled name v] else []) @ received name nx er co stopped xs"
| "received name nx er co stopped (Error v # xs) =
     (if er then [ErrorCalled name v] else []) @ received name nx er co True xs"
| "received name nx er co stopped (Complete # xs) =
     (if co then [CompleteCalled name] else []) @ received name nx er co True xs"




text \<open>The calls of a teardown of the caller, as the trace shows them.\<close>

fun teardown_call :: "teardown \<Rightarrow> 'v event list" where
  "teardown_call (TdFunction name) = [FunctionCalled name []]"
| "teardown_call (TdUnsubscribable name) = [UnsubscribeCalled name]"
| "teardown_call (TdSubscription other) = []"

fun of_caller :: "teardown \<Rightarrow> bool" where
  "of_caller (TdSubscription other) = False"
| "of_caller _ = True"

text \<open>
  What \<^verbatim>\<open>unsubscribe()\<close> is expected to call, read off the registries of a store: the
  entries of the registry in the order they were registered, a function or an
  unsubscribable of the caller as its one call, a subscription of the library as the
  calls of its own \<^verbatim>\<open>unsubscribe()\<close>. The nesting is followed to the given depth.
\<close>

fun entry_calls :: "(addr \<Rightarrow> 'v event list option) \<Rightarrow> teardown \<Rightarrow> 'v event list option" where
  "entry_calls unsubscribe (TdFunction name) = Some [FunctionCalled name []]"
| "entry_calls unsubscribe (TdUnsubscribable name) = Some [UnsubscribeCalled name]"
| "entry_calls unsubscribe (TdSubscription other) = unsubscribe other"

fun unsubscribe_calls :: "nat \<Rightarrow> 'v Subscriber list \<Rightarrow> addr \<Rightarrow> 'v event list option" where
  "unsubscribe_calls 0 h this = None"
| "unsubscribe_calls (Suc n) h this =
     (if this < length h
      then map_option concat
             (those (map (entry_calls (unsubscribe_calls n h)) (teardowns (h ! this))))
      else None)"

text \<open>A notification that stops the endpoint it is sent to.\<close>

fun terminal :: "'v notification \<Rightarrow> bool" where
  "terminal (Next v) = False"
| "terminal _ = True"

text \<open>The calls of teardowns among the calls a trace records.\<close>

fun is_teardown_call :: "'v event \<Rightarrow> bool" where
  "is_teardown_call (FunctionCalled name args) = True"
| "is_teardown_call (UnsubscribeCalled name) = True"
| "is_teardown_call _ = False"

definition teardown_calls :: "'v world \<Rightarrow> 'v event list" where
  "teardown_calls w = filter is_teardown_call (map snd (trace w))"


section \<open>Relations between stores\<close>

text \<open>\<open>only_trace w w'\<close>: nothing but the trace differs between the two stores.\<close>

definition only_trace :: "'v world \<Rightarrow> 'v world \<Rightarrow> bool" where
  "only_trace w w' \<longleftrightarrow> w' = w\<lparr>trace := trace w'\<rparr>"

text \<open>
  \<open>advances w w'\<close>: every subscriber of \<open>w\<close> is still there in \<open>w'\<close>, wraps the same
  observer, and is stopped if it was.
\<close>

definition advances :: "'v world \<Rightarrow> 'v world \<Rightarrow> bool" where
  "advances w w' \<longleftrightarrow>
     length (heap w) \<le> length (heap w') \<and>
     (\<forall>a<length (heap w).
        observer (heap w' ! a) = observer (heap w ! a) \<and>
        (isStopped (heap w ! a) \<longrightarrow> isStopped (heap w' ! a)))"

section \<open>Subscriptions through an operator, while the upstream producer runs\<close>






text \<open>
  \<open>operator_link w d s name nx er co tds\<close>: in the store \<open>w\<close>, after a subscription through
  an operator has returned, \<open>d\<close> is the endpoint of the caller's observer and holds the
  upstream subscription \<open>s\<close> as its one teardown, and the registry of \<open>s\<close> is \<open>tds\<close>,
  teardowns of the caller.
\<close>

definition operator_link ::
  "'v world \<Rightarrow> addr \<Rightarrow> addr \<Rightarrow> string \<Rightarrow> bool \<Rightarrow> bool \<Rightarrow> bool \<Rightarrow> teardown list \<Rightarrow> bool" where
  "operator_link w d s name nx er co tds \<longleftrightarrow>
     d < length (heap w) \<and> s < length (heap w) \<and> d \<noteq> s \<and>
     observer (heap w ! d) = Partial name nx er co \<and>
     teardowns (heap w ! d) = [TdSubscription s] \<and>
     teardowns (heap w ! s) = tds \<and> list_all of_caller tds"


section \<open>Example stores\<close>

text \<open>
  The store before anything is allocated. One endpoint around an observer that defines all three handlers, with two teardowns of
  the caller registered; the same after \<^verbatim>\<open>error(7)\<close>; and after a later \<^verbatim>\<open>unsubscribe()\<close>.
\<close>

definition empty_world :: "'v world" where
  "empty_world =
     \<lparr>heap = [], counters = [], slots = [], timers = [], issued = 0, now = 0, trace = []\<rparr>"

definition one_endpoint :: "int world" where
  "one_endpoint =
     \<lparr>heap = [\<lparr>teardowns = [TdFunction ''release'', TdUnsubscribable ''upstream''],
               isStopped = False, type = ''user'', observer = Partial ''o'' True True True\<rparr>],
      counters = [], slots = [], timers = [], issued = 0, now = 0, trace = []\<rparr>"

definition errored_endpoint :: "int world" where
  "errored_endpoint =
     \<lparr>heap = [\<lparr>teardowns = [TdFunction ''release'', TdUnsubscribable ''upstream''],
               isStopped = True, type = ''user'', observer = Partial ''o'' True True True\<rparr>],
      counters = [], slots = [], timers = [], issued = 0, now = 0,
      trace = [(0, ErrorCalled ''o'' 7)]\<rparr>"

definition unsubscribed_endpoint :: "int world" where
  "unsubscribed_endpoint =
     \<lparr>heap = [\<lparr>teardowns = [TdFunction ''release'', TdUnsubscribable ''upstream''],
               isStopped = True, type = ''user'', observer = Partial ''o'' True True True\<rparr>],
      counters = [], slots = [], timers = [], issued = 0, now = 0,
      trace = [(0, ErrorCalled ''o'' 7), (0, FunctionCalled ''release'' []),
               (0, UnsubscribeCalled ''upstream'')]\<rparr>"



text \<open>
  Two subscriptions: the registry of the first holds a function, the second subscription
  and another function; the registry of the second holds an unsubscribable.
\<close>

definition mixed_registry :: "int world" where
  "mixed_registry =
     \<lparr>heap = [\<lparr>teardowns = [TdFunction ''a'', TdSubscription 1, TdFunction ''c''],
               isStopped = False, type = ''user'', observer = Partial ''o'' True True True\<rparr>,
              \<lparr>teardowns = [TdUnsubscribable ''b''],
               isStopped = False, type = ''user'', observer = Partial ''p'' True True True\<rparr>],
      counters = [], slots = [], timers = [], issued = 0, now = 0, trace = []\<rparr>"

text \<open>
  The store after an observer defining all three handlers has subscribed to
  \<^verbatim>\<open>map(x => 2 * x)\<close> of an upstream whose producer has returned the function
  \<^verbatim>\<open>cleanup\<close> and has sent nothing yet.
\<close>

definition map_subscribed :: "int world" where
  "map_subscribed =
     \<lparr>heap = [\<lparr>teardowns = [TdSubscription 1], isStopped = False, type = ''map'',
               observer = Partial ''o'' True True True\<rparr>,
              \<lparr>teardowns = [TdFunction ''cleanup''], isStopped = False, type = ''user'',
               observer = MapInline (\<lambda>x i. 2 * x) 0 0\<rparr>],
      counters = [0], slots = [], timers = [], issued = 0, now = 0, trace = []\<rparr>"

section \<open>Properties of the composition utility\<close>

lemma pipeFromArray_foldl: "pipeFromArray fns input = foldl (\<lambda>prev fn. fn prev) input fns"
proof (cases fns)
  case Nil
  then show ?thesis by (simp add: pipeFromArray_def)
next
  case (Cons f rest)
  then show ?thesis by (cases rest) (simp_all add: pipeFromArray_def)
qed

text \<open>
  Claim C5. \<open>pipeFromArray\<close> of no function is the identity; of one function it is that
  function (HOL has no object identity: equal functions are the same function); of two or
  more it folds the input through them from the left, so that the last function of the
  list is applied last. Hence \<open>pipe\<close> with no operator returns the observable it is
  called on and \<open>pipe\<close> with one operator returns the operator applied to it.
\<close>

theorem pipeFromArray_composes:
  "pipeFromArray [] = (\<lambda>input. input) \<and>
   pipeFromArray [f] = f \<and>
   pipeFromArray (f # g # fns) input = foldl (\<lambda>prev fn. fn prev) input (f # g # fns) \<and>
   pipeFromArray (fns' @ [h]) input = h (pipeFromArray fns' input) \<and>
   Observable_pipe [] this = this \<and>
   Observable_pipe [op] this = op this"
proof -
  have "pipeFromArray (fns' @ [h]) input = h (pipeFromArray fns' input)"
    by (simp add: pipeFromArray_foldl)
  then show ?thesis
    by (simp add: pipeFromArray_def Observable_pipe_def)
qed

section \<open>What a call can change\<close>

lemma forEach_rel:
  assumes step: "\<And>x s s'. x \<in> set xs \<Longrightarrow> f x s = Some s' \<Longrightarrow> R s s'"
    and refl: "\<And>s. R s s"
    and trans: "\<And>s1 s2 s3. R s1 s2 \<Longrightarrow> R s2 s3 \<Longrightarrow> R s1 s3"
    and run: "forEach f xs s = Some s'"
  shows "R s s'"
  using step run
proof (induction xs arbitrary: s)
  case Nil
  then show ?case using refl by simp
next
  case (Cons x xs)
  from Cons.prems(2) obtain s1 where s1: "f x s = Some s1" and rest: "forEach f xs s1 = Some s'"
    by (auto split: option.splits)
  have "R s s1" using Cons.prems(1) s1 by auto
  moreover have "R s1 s'" using Cons.IH Cons.prems(1) rest by auto
  ultimately show ?case using trans by blast
qed

lemma only_trace_refl: "only_trace w w"
  by (simp add: only_trace_def)

lemma only_trace_trans: "only_trace w1 w2 \<Longrightarrow> only_trace w2 w3 \<Longrightarrow> only_trace w1 w3"
proof -
  assume a: "only_trace w1 w2" and b: "only_trace w2 w3"
  from a have "w2 = w1\<lparr>trace := trace w2\<rparr>" by (simp add: only_trace_def)
  then have "w2\<lparr>trace := trace w3\<rparr> = w1\<lparr>trace := trace w3\<rparr>"
    by (metis world.update_convs(7) world.surjective)
  with b show ?thesis by (simp add: only_trace_def)
qed

lemma only_trace_emit: "only_trace w (emit e w)"
  by (simp add: only_trace_def emit_def)

lemma call_teardown_rel:
  assumes "\<And>other w w'. unsub other w = Some w' \<Longrightarrow> R w w'"
    and "\<And>e w. R w (emit e w)"
    and "call_teardown unsub td w = Some w'"
  shows "R w w'"
  using assms by (cases td) auto

lemma unsubscribe_only_trace:
  "Subscription_unsubscribe n this w = Some w' \<Longrightarrow> only_trace w w'"
proof (induction n arbitrary: this w w')
  case 0
  then show ?case by simp
next
  case (Suc n)
  from Suc.prems have run:
    "forEach (call_teardown (Subscription_unsubscribe n)) (teardowns (heap w ! this)) w = Some w'"
    by (simp split: if_splits)
  show ?case
    by (rule forEach_rel [OF _ only_trace_refl only_trace_trans run])
       (erule call_teardown_rel [rotated 2], erule Suc.IH, rule only_trace_emit)
qed

lemma advances_refl: "advances w w"
  by (simp add: advances_def)

lemma advances_trans: "advances w1 w2 \<Longrightarrow> advances w2 w3 \<Longrightarrow> advances w1 w3"
  unfolding advances_def by force

lemma advances_same_heap: "heap w' = heap w \<Longrightarrow> advances w w'"
  by (simp add: advances_def)

lemma advances_stop: "advances w (stop this w)"
  by (cases "this < length (heap w)") (auto simp: advances_def stop_def nth_list_update)

lemma next_same_heap:
  "Subscriber_next n this v w = Some w' \<Longrightarrow> heap w' = heap w"
  "observer_next n ob v w = Some w' \<Longrightarrow> heap w' = heap w"
proof (induction n this v w and n ob v w arbitrary: w' and w'
       rule: Subscriber_next_observer_next.induct)
  case (1 this v w)
  then show ?case by simp
next
  case (2 n this v w)
  from "2.prems" have lt: "this < length (heap w)"
    by (simp split: if_splits)
  show ?case
  proof (cases "has_next (observer (heap w ! this)) \<and> \<not> isStopped (heap w ! this)")
    case True
    with "2.prems" lt have "observer_next n (observer (heap w ! this)) v w = Some w'"
      by simp
    with "2.IH" lt True show ?thesis
      by blast
  next
    case False
    with "2.prems" lt show ?thesis
      by auto
  qed
next
  case (3 n name nx er co v w)
  then show ?case by (auto simp: emit_def)
next
  case (4 n project i subscriber v w)
  from "4.prems" have lt: "i < length (counters w)"
    by (simp split: if_splits)
  with "4.prems" have "Subscriber_next n subscriber (project v (counters w ! i))
          (w\<lparr>counters := (counters w)[i := Suc (counters w ! i)]\<rparr>) = Some w'"
    by simp
  with "4.IH" lt have "heap w' = heap (w\<lparr>counters := (counters w)[i := Suc (counters w ! i)]\<rparr>)"
    by blast
  then show ?case by simp
next
  case (5 n time delay subscriber v w)
  then show ?case
    by (auto simp: setTimeout_def clearTimeout_def Let_def split: if_splits)
qed

lemma error_advances:
  "Subscriber_error n this v w = Some w' \<Longrightarrow> advances w w'"
  "observer_error n ob v w = Some w' \<Longrightarrow> advances w w'"
proof (induction n this v w and n ob v w arbitrary: w' and w'
       rule: Subscriber_error_observer_error.induct)
  case (1 this v w)
  then show ?case by simp
next
  case (2 n this v w)
  from "2.prems" have lt: "this < length (heap w)"
    by (simp split: if_splits)
  show ?case
  proof (cases "has_error (observer (heap (stop this w) ! this))")
    case True
    with "2.prems" lt have "observer_error n (observer (heap (stop this w) ! this)) v (stop this w) = Some w'"
      by (simp add: Let_def)
    with "2.IH" lt True have "advances (stop this w) w'"
      by simp
    then show ?thesis
      using advances_stop advances_trans by blast
  next
    case False
    with "2.prems" lt have "w' = stop this w"
      by (simp add: Let_def)
    then show ?thesis
      by (simp add: advances_stop)
  qed
next
  case (3 n name nx er co v w)
  then show ?case by (auto simp: emit_def intro: advances_same_heap)
next
  case (4 n project i subscriber v w)
  then show ?case by simp
next
  case (5 n time delay subscriber v w)
  have "advances w (clearTimeout (slots w ! time) w)"
    by (simp add: clearTimeout_def advances_same_heap)
  moreover from 5 have "advances (clearTimeout (slots w ! time) w) w'"
    by (simp split: if_splits)
  ultimately show ?case
    by (rule advances_trans)
qed

lemma unsubscribe_same_heap:
  "Subscription_unsubscribe n this w = Some w' \<Longrightarrow> heap w' = heap w"
proof -
  assume "Subscription_unsubscribe n this w = Some w'"
  then have "w' = w\<lparr>trace := trace w'\<rparr>"
    using unsubscribe_only_trace only_trace_def by blast
  then have "heap w' = heap (w\<lparr>trace := trace w'\<rparr>)"
    by simp
  then show ?thesis
    by simp
qed

lemma complete_advances:
  "Subscriber_complete n this w = Some w' \<Longrightarrow> advances w w'"
  "observer_complete n ob w = Some w' \<Longrightarrow> advances w w'"
proof (induction n this w and n ob w arbitrary: w' and w'
       rule: Subscriber_complete_observer_complete.induct)
  case (1 this w)
  then show ?case by simp
next
  case (2 n this w)
  from "2.prems" obtain w2 where
    h: "(if has_complete (observer (heap (stop this w) ! this))
         then observer_complete n (observer (heap (stop this w) ! this)) (stop this w)
         else Some (stop this w)) = Some w2"
    and u: "Subscription_unsubscribe n this w2 = Some w'"
    and lt: "this < length (heap w)"
    by (auto simp: Let_def split: if_splits bind_splits)
  have "advances (stop this w) w2"
    using h lt "2.IH" by (auto split: if_splits intro: advances_refl)
  moreover have "advances w2 w'"
    using u by (simp add: unsubscribe_same_heap advances_same_heap)
  ultimately show ?case
    using advances_stop advances_trans by blast
next
  case (3 n name nx er co w)
  then show ?case by (auto simp: emit_def intro: advances_same_heap)
next
  case (4 n project i subscriber w)
  then show ?case by simp
next
  case (5 n time delay subscriber w)
  have "advances w (clearTimeout (slots w ! time) w)"
    by (simp add: clearTimeout_def advances_same_heap)
  moreover from 5 have "advances (clearTimeout (slots w ! time) w) w'"
    by (simp split: if_splits)
  ultimately show ?case
    by (rule advances_trans)
qed

lemma add_advances: "add this teardown w = Some w' \<Longrightarrow> advances w w'"
  by (cases teardown)
     (auto simp: add_def Subscription_add_def advances_def nth_list_update split: if_splits)

lemma deliver_advances: "deliver n target x w = Some w' \<Longrightarrow> advances w w'"
  by (cases x) (simp_all add: next_same_heap advances_same_heap error_advances complete_advances)

lemma setTimeout_advances: "advances w (snd (setTimeout c d w))"
  by (simp add: setTimeout_def advances_same_heap)

lemma run_steps_advances: "run_steps n steps ob w = Some w' \<Longrightarrow> advances w w'"
proof (induction steps arbitrary: w)
  case Nil
  then show ?case by (simp add: advances_refl)
next
  case (Cons s steps)
  show ?case
  proof (cases s)
    case (Call x)
    with Cons.prems obtain w1 where d: "deliver n ob x w = Some w1"
      and r: "run_steps n steps ob w1 = Some w'"
      by (auto split: option.splits)
    from d have "advances w w1" by (rule deliver_advances)
    moreover from r have "advances w1 w'" by (rule Cons.IH)
    ultimately show ?thesis by (rule advances_trans)
  next
    case (Later delay x)
    with Cons.prems have "run_steps n steps ob (snd (setTimeout (ob, x) delay w)) = Some w'"
      by simp
    then have "advances (snd (setTimeout (ob, x) delay w)) w'" by (rule Cons.IH)
    with setTimeout_advances show ?thesis by (rule advances_trans)
  qed
qed

lemma advances_alloc: "advances w (w\<lparr>heap := heap w @ [s]\<rparr>)"
  by (simp add: advances_def nth_append)

lemma subscribe_advances:
  "Observable_subscribe n observable ob w = Some (a, w') \<Longrightarrow> advances w w'"
  "call_producer n producer subscriber w = Some (td, w') \<Longrightarrow> advances w w'"
proof (induction n observable ob w and n producer subscriber w arbitrary: a w' and td w'
       rule: Observable_subscribe_call_producer.induct)
  case (1 n producer ty ob w)
  define w1 where "w1 = w\<lparr>heap := heap w @
                 [\<lparr>teardowns = [], isStopped = False, type = ty, observer = ob\<rparr>]\<rparr>"
  from "1.prems" obtain teardown w2 where
    p: "call_producer n producer (length (heap w)) w1 = Some (teardown, w2)"
    and ad: "add (length (heap w)) teardown w2 = Some w'"
    by (auto simp: Let_def w1_def split: bind_splits)
  have "advances w w1" unfolding w1_def by (rule advances_alloc)
  moreover have "advances w1 w2" using "1.IH" p w1_def by blast
  moreover have "advances w2 w'" using ad by (rule add_advances)
  ultimately show ?case using advances_trans by blast
next
  case (2 n steps result subscriber w)
  then show ?case by (auto split: bind_splits dest: run_steps_advances)
next
  case (3 n project observable subscriber w)
  define w1 where "w1 = w\<lparr>counters := counters w @ [0]\<rparr>"
  from "3.prems" obtain s where
    "Observable_subscribe n observable (MapInline project (length (counters w)) subscriber) w1 = Some (s, w')"
    by (auto simp: Let_def w1_def split: bind_splits)
  then have "advances w1 w'" using "3.IH" w1_def by blast
  moreover have "advances w w1" by (simp add: w1_def advances_same_heap)
  ultimately show ?case using advances_trans by blast
next
  case (4 n time delay observable subscriber w)
  from "4.prems" obtain s where
    "Observable_subscribe n observable (DebounceInline time delay subscriber) w = Some (s, w')"
    by (auto split: bind_splits)
  then show ?case using "4.IH" by blast
qed

lemma run_until_advances: "run_until k n T w = Some w' \<Longrightarrow> advances w w'"
proof (induction k arbitrary: w)
  case 0
  then show ?case by simp
next
  case (Suc k)
  show ?case
  proof (cases "earliest (filter (\<lambda>t. fst (snd t) \<le> T) (timers w))")
    case None
    with Suc.prems have "w' = w\<lparr>now := max (now w) T\<rparr>" by simp
    then show ?thesis by (simp add: advances_same_heap)
  next
    case (Some t)
    obtain handle due target x where t: "t = (handle, due, target, x)"
      by (cases t) auto
    define w0 where "w0 = w\<lparr>timers := filter (\<lambda>t. fst t \<noteq> handle) (timers w),
                     now := max (now w) due\<rparr>"
    from Suc.prems Some t obtain w1 where d: "deliver n target x w0 = Some w1"
      and r: "run_until k n T w1 = Some w'"
      by (auto simp: w0_def split: option.splits)
    have "advances w w0" by (simp add: w0_def advances_same_heap)
    moreover from d have "advances w0 w1" by (rule deliver_advances)
    moreover from r have "advances w1 w'" by (rule Suc.IH)
    ultimately show ?thesis using advances_trans by blast
  qed
qed

lemma perform_advances: "perform n r w = Some w' \<Longrightarrow> advances w w'"
proof (cases r)
  case (DoSubscribe observable ob)
  assume "perform n r w = Some w'"
  with DoSubscribe obtain a where "Observable_subscribe n observable ob w = Some (a, w')"
    by auto
  then show ?thesis by (rule subscribe_advances)
qed (simp_all add: next_same_heap advances_same_heap error_advances complete_advances
       unsubscribe_same_heap add_advances run_until_advances)

lemma perform_all_advances:
  assumes "perform_all n rs w = Some w'"
  shows "advances w w'"
proof (rule forEach_rel [where R = advances and f = "perform n" and xs = rs])
  show "forEach (perform n) rs w = Some w'"
    using assms by (simp add: perform_all_def)
next
  fix x and s s' :: "'a world"
  assume "perform n x s = Some s'"
  then show "advances s s'" by (rule perform_advances)
next
  fix s :: "'a world"
  show "advances s s" by (rule advances_refl)
next
  fix s1 s2 s3 :: "'a world"
  assume "advances s1 s2" "advances s2 s3"
  then show "advances s1 s3" by (rule advances_trans)
qed

lemma stop_stops: "this < length (heap w) \<Longrightarrow> isStopped (heap (stop this w) ! this)"
  by (simp add: stop_def)

lemma advances_stopped:
  "advances w w' \<Longrightarrow> a < length (heap w) \<Longrightarrow> isStopped (heap w ! a) \<Longrightarrow>
   a < length (heap w') \<and> isStopped (heap w' ! a)"
  by (auto simp: advances_def)

lemma advances_observer:
  "advances w w' \<Longrightarrow> a < length (heap w) \<Longrightarrow> observer (heap w' ! a) = observer (heap w ! a)"
  by (auto simp: advances_def)

lemma length_heap_stop: "length (heap (stop this w)) = length (heap w)"
  by (simp add: stop_def)

lemma error_stops:
  assumes "Subscriber_error n this v w = Some w'"
  shows "this < length (heap w') \<and> isStopped (heap w' ! this)"
proof (cases n)
  case 0
  with assms show ?thesis by simp
next
  case (Suc m)
  with assms have lt: "this < length (heap w)" by (simp split: if_splits)
  have "advances (stop this w) w'"
  proof (cases "has_error (observer (heap (stop this w) ! this))")
    case True
    with assms Suc lt show ?thesis
      by (simp add: Let_def error_advances)
  next
    case False
    with assms Suc lt show ?thesis
      by (simp add: Let_def advances_refl)
  qed
  then show ?thesis
    using advances_stopped [of "stop this w" w' this] lt stop_stops length_heap_stop by metis
qed

lemma complete_stops:
  assumes "Subscriber_complete n this w = Some w'"
  shows "this < length (heap w') \<and> isStopped (heap w' ! this)"
proof (cases n)
  case 0
  with assms show ?thesis by simp
next
  case (Suc m)
  with assms have lt: "this < length (heap w)" by (simp split: if_splits)
  from assms Suc lt obtain w2 where
    h: "(if has_complete (observer (heap (stop this w) ! this))
         then observer_complete m (observer (heap (stop this w) ! this)) (stop this w)
         else Some (stop this w)) = Some w2"
    and u: "Subscription_unsubscribe m this w2 = Some w'"
    by (auto simp: Let_def split: bind_splits)
  have "advances (stop this w) w2"
    using h by (auto split: if_splits simp: complete_advances advances_refl)
  moreover have "advances w2 w'"
    using u by (simp add: unsubscribe_same_heap advances_same_heap)
  ultimately have "advances (stop this w) w'" by (rule advances_trans)
  then show ?thesis
    using advances_stopped [of "stop this w" w' this] lt stop_stops length_heap_stop by metis
qed


section \<open>Endpoints around an observer of the caller\<close>

lemma stop_idem: "a < length (heap w) \<Longrightarrow> isStopped (heap w ! a) \<Longrightarrow> stop a w = w"
proof -
  assume "a < length (heap w)" "isStopped (heap w ! a)"
  have "(heap w ! a)\<lparr>isStopped := isStopped (heap w ! a)\<rparr> = heap w ! a" by simp
  with \<open>isStopped (heap w ! a)\<close> have "(heap w ! a)\<lparr>isStopped := True\<rparr> = heap w ! a" by simp
  then show ?thesis by (simp add: stop_def)
qed

lemma observer_stop: "observer (heap (stop a w) ! a) = observer (heap w ! a)"
  by (cases "a < length (heap w)") (simp_all add: stop_def list_update_beyond)

lemma next_partial:
  assumes "a < length (heap w)" "observer (heap w ! a) = Partial name nx er co"
  shows "Subscriber_next (Suc n) a v w =
         Some (if nx \<and> \<not> isStopped (heap w ! a) then emit (NextCalled name v) w else w)"
  using assms by (simp add: has_next_def)

lemma error_partial:
  assumes "a < length (heap w)" "observer (heap w ! a) = Partial name nx er co"
  shows "Subscriber_error (Suc n) a v w =
         Some (if er then emit (ErrorCalled name v) (stop a w) else stop a w)"
  using assms by (simp add: has_error_def observer_stop Let_def)

lemma complete_partial:
  assumes "a < length (heap w)" "observer (heap w ! a) = Partial name nx er co"
  shows "Subscriber_complete (Suc n) a w =
         Subscription_unsubscribe n a (if co then emit (CompleteCalled name) (stop a w) else stop a w)"
  using assms by (simp add: has_complete_def observer_stop Let_def)

lemma forEach_of_caller:
  assumes "\<forall>td\<in>set tds. of_caller td"
  shows "forEach (call_teardown u) tds w =
         Some (w\<lparr>trace := trace w @ map (Pair (now w)) (concat (map teardown_call tds))\<rparr>)"
  using assms
proof (induction tds arbitrary: w)
  case Nil
  then show ?case by simp
next
  case (Cons td tds)
  then show ?case by (cases td) (simp_all add: emit_def)
qed

lemma unsubscribe_of_caller:
  assumes "a < length (heap w)" "\<forall>td\<in>set (teardowns (heap w ! a)). of_caller td"
  shows "Subscription_unsubscribe (Suc n) a w =
         Some (w\<lparr>trace := trace w @
                 map (Pair (now w)) (concat (map teardown_call (teardowns (heap w ! a))))\<rparr>)"
  using assms by (simp add: forEach_of_caller)

lemma stop_fields:
  "trace (stop a w) = trace w" "now (stop a w) = now w"
  "length (heap (stop a w)) = length (heap w)"
  "teardowns (heap (stop a w) ! a) = teardowns (heap w ! a)"
  by (cases "a < length (heap w)"; simp add: stop_def list_update_beyond)+

lemma complete_of_caller:
  assumes "a < length (heap w)" and "observer (heap w ! a) = Partial name nx er co"
    and oc: "\<forall>td\<in>set (teardowns (heap w ! a)). of_caller td"
  shows "Subscriber_complete (Suc (Suc n)) a w =
           Some ((stop a w)\<lparr>trace := trace w @ map (Pair (now w))
                   ((if co then [CompleteCalled name] else []) @
                    concat (map teardown_call (teardowns (heap w ! a))))\<rparr>)"
proof -
  let ?w1 = "if co then emit (CompleteCalled name) (stop a w) else stop a w"
  have c: "Subscriber_complete (Suc (Suc n)) a w = Subscription_unsubscribe (Suc n) a ?w1"
    using assms(1,2) by (rule complete_partial)
  have lt1: "a < length (heap ?w1)"
    using assms(1) by (simp add: emit_def stop_fields)
  have td1: "teardowns (heap ?w1 ! a) = teardowns (heap w ! a)"
    by (simp add: emit_def stop_fields)
  from oc td1 have "\<forall>td\<in>set (teardowns (heap ?w1 ! a)). of_caller td"
    by simp
  from unsubscribe_of_caller [OF lt1 this, of n] td1 c show ?thesis
    by (simp add: emit_def stop_fields)
qed

lemma one_endpoint_error:
  "Subscriber_error (Suc 0) 0 7 one_endpoint = Some errored_endpoint"
  by (simp add: one_endpoint_def errored_endpoint_def has_error_def stop_def emit_def)

section \<open>Terminal events\<close>

text \<open>
  Claim C1, as stated, fails: a second \<^verbatim>\<open>error\<close> on the same endpoint is forwarded to the
  wrapped observer like the first. Here \<^verbatim>\<open>error(7)\<close> and then \<^verbatim>\<open>error(8)\<close> are sent to one
  endpoint, and the observer's handler is called twice.
\<close>

theorem error_forwarded_twice:
  "map_option trace (Option.bind (Subscriber_error (Suc 0) 0 7 one_endpoint)
                                 (Subscriber_error (Suc 0) 0 8)) =
   Some [(0, ErrorCalled ''o'' 7), (0, ErrorCalled ''o'' 8)]"
  by (simp add: one_endpoint_def has_error_def stop_def emit_def)

text \<open>
  Claim C2. Once \<^verbatim>\<open>error\<close> or \<^verbatim>\<open>complete\<close> has returned on an endpoint, then whatever
  requests are served afterwards, a call of \<^verbatim>\<open>next\<close> on that endpoint returns and leaves
  the store as it is: no handler is called and the trace does not grow.
\<close>

theorem stopped_endpoint_drops_next:
  assumes "Subscriber_error n a e w = Some w1 \<or> Subscriber_complete n a w = Some w1"
    and "perform_all m requests w1 = Some w2"
  shows "Subscriber_next (Suc k) a v w2 = Some w2"
proof -
  from assms(1) have "a < length (heap w1) \<and> isStopped (heap w1 ! a)"
    by (auto dest: error_stops complete_stops)
  with assms(2) have "a < length (heap w2) \<and> isStopped (heap w2 ! a)"
    by (auto dest!: perform_all_advances dest: advances_stopped)
  then show ?thesis by simp
qed

text \<open>
  Claim C1, amended. For an endpoint around an observer of the caller, once \<^verbatim>\<open>error\<close> or
  \<^verbatim>\<open>complete\<close> has returned, then whatever requests are served afterwards, the endpoint
  is still stopped and drops every \<^verbatim>\<open>next\<close>; but terminal calls are not dropped: a later
  \<^verbatim>\<open>error(e)\<close> calls the observer's handler if it is defined, and a later \<^verbatim>\<open>complete()\<close>
  calls the observer's handler if it is defined and then runs \<^verbatim>\<open>unsubscribe()\<close> again.
\<close>

theorem terminal_calls_are_forwarded_again:
  assumes "a < length (heap w)" and "observer (heap w ! a) = Partial name nx er co"
    and "Subscriber_error n a e0 w = Some w1 \<or> Subscriber_complete n a w = Some w1"
    and "perform_all m requests w1 = Some w2"
  shows "isStopped (heap w2 ! a) \<and>
         Subscriber_next (Suc k) a v w2 = Some w2 \<and>
         Subscriber_error (Suc k) a e w2 =
           Some (if er then emit (ErrorCalled name e) w2 else w2) \<and>
         Subscriber_complete (Suc (Suc k)) a w2 =
           Subscription_unsubscribe (Suc k) a
             (if co then emit (CompleteCalled name) w2 else w2) \<and>
         ((\<forall>td\<in>set (teardowns (heap w2 ! a)). of_caller td) \<longrightarrow>
            Subscriber_complete (Suc (Suc k)) a w2 =
              Some (w2\<lparr>trace := trace w2 @ map (Pair (now w2))
                      ((if co then [CompleteCalled name] else []) @
                       concat (map teardown_call (teardowns (heap w2 ! a))))\<rparr>))"
proof -
  have adv1: "advances w w1"
    using assms(3) by (auto dest: error_advances(1) complete_advances(1))
  from assms(3) have s1: "a < length (heap w1) \<and> isStopped (heap w1 ! a)"
    by (auto dest: error_stops complete_stops)
  have adv2: "advances w1 w2"
    using assms(4) by (rule perform_all_advances)
  from s1 adv2 have s2: "a < length (heap w2) \<and> isStopped (heap w2 ! a)"
    by (auto dest: advances_stopped)
  have "observer (heap w1 ! a) = Partial name nx er co"
    using adv1 assms(1,2) advances_observer by metis
  then have ob: "observer (heap w2 ! a) = Partial name nx er co"
    using adv2 s1 advances_observer by metis
  from s2 have st: "stop a w2 = w2"
    by (simp add: stop_idem)
  from s2 have "Subscriber_next (Suc k) a v w2 = Some w2"
    by simp
  moreover have
    "Subscriber_error (Suc k) a e w2 = Some (if er then emit (ErrorCalled name e) w2 else w2)"
    by (simp only: error_partial [OF conjunct1 [OF s2] ob] st)
  moreover have
    "Subscriber_complete (Suc (Suc k)) a w2 =
       Subscription_unsubscribe (Suc k) a (if co then emit (CompleteCalled name) w2 else w2)"
    by (simp only: complete_partial [OF conjunct1 [OF s2] ob] st)
  moreover have
    "(\<forall>td\<in>set (teardowns (heap w2 ! a)). of_caller td) \<longrightarrow>
       Subscriber_complete (Suc (Suc k)) a w2 =
         Some (w2\<lparr>trace := trace w2 @ map (Pair (now w2))
                 ((if co then [CompleteCalled name] else []) @
                  concat (map teardown_call (teardowns (heap w2 ! a))))\<rparr>)"
    using complete_of_caller [OF conjunct1 [OF s2] ob, of k] st by simp
  ultimately show ?thesis using s2 by blast
qed

lemma errored_endpoint_requests:
  "perform_all (Suc (Suc 0)) [DoNext 0 3, DoUnsubscribe 0] errored_endpoint =
   Some unsubscribed_endpoint"
  by (simp add: perform_all_def errored_endpoint_def unsubscribed_endpoint_def emit_def)

theorem stopped_endpoint_drops_next_witness:
  "Subscriber_error (Suc 0) 0 7 one_endpoint = Some errored_endpoint \<and>
   perform_all (Suc (Suc 0)) [DoNext 0 3, DoUnsubscribe 0] errored_endpoint =
     Some unsubscribed_endpoint \<and>
   Subscriber_next (Suc 0) 0 5 unsubscribed_endpoint = Some unsubscribed_endpoint"
  using stopped_endpoint_drops_next [OF disjI1 [OF one_endpoint_error] errored_endpoint_requests]
    one_endpoint_error errored_endpoint_requests
  by blast

theorem terminal_calls_are_forwarded_again_witness:
  "0 < length (heap one_endpoint) \<and>
   observer (heap one_endpoint ! 0) = Partial ''o'' True True True \<and>
   Subscriber_error (Suc 0) 0 7 one_endpoint = Some errored_endpoint \<and>
   perform_all (Suc (Suc 0)) [DoNext 0 3, DoUnsubscribe 0] errored_endpoint =
     Some unsubscribed_endpoint \<and>
   isStopped (heap unsubscribed_endpoint ! 0) \<and>
   Subscriber_next (Suc 0) 0 5 unsubscribed_endpoint = Some unsubscribed_endpoint \<and>
   Subscriber_error (Suc 0) 0 8 unsubscribed_endpoint =
     Some (emit (ErrorCalled ''o'' 8) unsubscribed_endpoint) \<and>
   map_option trace (Subscriber_complete (Suc (Suc 0)) 0 unsubscribed_endpoint) =
     Some [(0, ErrorCalled ''o'' 7), (0, FunctionCalled ''release'' []),
           (0, UnsubscribeCalled ''upstream''), (0, CompleteCalled ''o''),
           (0, FunctionCalled ''release'' []), (0, UnsubscribeCalled ''upstream'')]"
proof -
  have l: "0 < length (heap one_endpoint)"
    by (simp add: one_endpoint_def)
  have ob: "observer (heap one_endpoint ! 0) = Partial ''o'' True True True"
    by (simp add: one_endpoint_def)
  have oc: "\<forall>td\<in>set (teardowns (heap unsubscribed_endpoint ! 0)). of_caller td"
    by (simp add: unsubscribed_endpoint_def)
  note T = terminal_calls_are_forwarded_again
             [OF l ob disjI1 [OF one_endpoint_error] errored_endpoint_requests, of 0 5 8]
  note st = T [THEN conjunct1]
  note nx = T [THEN conjunct2, THEN conjunct1]
  note er = T [THEN conjunct2, THEN conjunct2, THEN conjunct1]
  note co = T [THEN conjunct2, THEN conjunct2, THEN conjunct2, THEN conjunct2, THEN mp, OF oc]
  have "map_option trace (Subscriber_complete (Suc (Suc 0)) 0 unsubscribed_endpoint) =
     Some [(0, ErrorCalled ''o'' 7), (0, FunctionCalled ''release'' []),
           (0, UnsubscribeCalled ''upstream''), (0, CompleteCalled ''o''),
           (0, FunctionCalled ''release'' []), (0, UnsubscribeCalled ''upstream'')]"
    by (simp only: co) (simp add: unsubscribed_endpoint_def)
  moreover have "Subscriber_error (Suc 0) 0 8 unsubscribed_endpoint =
     Some (emit (ErrorCalled ''o'' 8) unsubscribed_endpoint)"
    by (simp only: er if_True)
  ultimately show ?thesis
    using l ob one_endpoint_error errored_endpoint_requests st nx by blast
qed

section \<open>Completion, errors and the registry\<close>

lemma teardown_calls_emit:
  "teardown_calls (emit e w) = teardown_calls w @ (if is_teardown_call e then [e] else [])"
  by (simp add: teardown_calls_def emit_def)

lemma teardown_calls_stop: "teardown_calls (stop a w) = teardown_calls w"
  by (simp add: teardown_calls_def stop_def)

lemma teardown_calls_clearTimeout: "teardown_calls (clearTimeout h w) = teardown_calls w"
  by (simp add: teardown_calls_def clearTimeout_def)

lemma error_calls_no_teardown:
  "Subscriber_error n this v w = Some w' \<Longrightarrow> teardown_calls w' = teardown_calls w"
  "observer_error n ob v w = Some w' \<Longrightarrow> teardown_calls w' = teardown_calls w"
proof (induction n this v w and n ob v w arbitrary: w' and w'
       rule: Subscriber_error_observer_error.induct)
  case (1 this v w)
  then show ?case by simp
next
  case (2 n this v w)
  from "2.prems" have lt: "this < length (heap w)"
    by (simp split: if_splits)
  show ?case
  proof (cases "has_error (observer (heap (stop this w) ! this))")
    case True
    with "2.prems" lt have "observer_error n (observer (heap (stop this w) ! this)) v (stop this w) = Some w'"
      by (simp add: Let_def)
    with "2.IH" lt True have "teardown_calls w' = teardown_calls (stop this w)"
      by simp
    then show ?thesis by (simp add: teardown_calls_stop)
  next
    case False
    with "2.prems" lt have "w' = stop this w"
      by (simp add: Let_def)
    then show ?thesis by (simp add: teardown_calls_stop)
  qed
next
  case (3 n name nx er co v w)
  then show ?case by (auto simp: teardown_calls_emit)
next
  case (4 n project i subscriber v w)
  then show ?case by simp
next
  case (5 n time delay subscriber v w)
  from 5 have "teardown_calls w' = teardown_calls (clearTimeout (slots w ! time) w)"
    by (simp split: if_splits)
  then show ?case by (simp add: teardown_calls_clearTimeout)
qed

lemma entry_calls_run:
  assumes "\<And>b w. unsub b w =
             map_option (\<lambda>evs. w\<lparr>trace := trace w @ map (Pair (now w)) evs\<rparr>) (calls (heap w) b)"
  shows "call_teardown unsub td w =
         map_option (\<lambda>evs. w\<lparr>trace := trace w @ map (Pair (now w)) evs\<rparr>)
           (entry_calls (calls (heap w)) td)"
  using assms by (cases td) (simp_all add: emit_def)

lemma forEach_entry_calls:
  assumes "\<And>b w. unsub b w =
             map_option (\<lambda>evs. w\<lparr>trace := trace w @ map (Pair (now w)) evs\<rparr>) (calls (heap w) b)"
  shows "forEach (call_teardown unsub) tds w =
         map_option (\<lambda>evs. w\<lparr>trace := trace w @ map (Pair (now w)) evs\<rparr>)
           (map_option concat (those (map (entry_calls (calls (heap w))) tds)))"
proof (induction tds arbitrary: w)
  case Nil
  show ?case by simp
next
  case (Cons td tds)
  show ?case
  proof (cases "entry_calls (calls (heap w)) td")
    case None
    then show ?thesis
      by (simp add: entry_calls_run [of unsub calls, OF assms])
  next
    case (Some evs)
    let ?w1 = "w\<lparr>trace := trace w @ map (Pair (now w)) evs\<rparr>"
    have c: "call_teardown unsub td w = Some ?w1"
      using Some by (simp add: entry_calls_run [of unsub calls, OF assms])
    have h1: "heap ?w1 = heap w" "now ?w1 = now w" by simp_all
    show ?thesis
    proof (cases "those (map (entry_calls (calls (heap w))) tds)")
      case None
      then show ?thesis
        using Some c by (simp add: Cons.IH h1)
    next
      case (Some rest)
      then show ?thesis
        using \<open>entry_calls (calls (heap w)) td = Some evs\<close> c
        by (simp add: Cons.IH h1)
    qed
  qed
qed

lemma unsubscribe_runs_calls:
  "Subscription_unsubscribe n a w =
   map_option (\<lambda>evs. w\<lparr>trace := trace w @ map (Pair (now w)) evs\<rparr>)
     (unsubscribe_calls n (heap w) a)"
proof (induction n arbitrary: a w)
  case 0
  show ?case by simp
next
  case (Suc n)
  show ?case
  proof (cases "a < length (heap w)")
    case True
    then show ?thesis
      using forEach_entry_calls [of "Subscription_unsubscribe n" "unsubscribe_calls n", OF Suc.IH]
      by simp
  next
    case False
    then show ?thesis by simp
  qed
qed

lemma registries_stop: "map teardowns (heap (stop a w)) = map teardowns (heap w)"
proof (cases "a < length (heap w)")
  case True
  then have "(map teardowns (heap w))[a := teardowns (heap w ! a)] = map teardowns (heap w)"
    by (simp add: list_update_same_conv)
  with True show ?thesis
    by (simp add: stop_def map_update)
next
  case False
  then show ?thesis by (simp add: stop_def list_update_beyond)
qed

lemma complete_keeps_registries:
  "Subscriber_complete n this w = Some w' \<Longrightarrow>
   map teardowns (heap w') = map teardowns (heap w)"
  "observer_complete n ob w = Some w' \<Longrightarrow>
   map teardowns (heap w') = map teardowns (heap w)"
proof (induction n this w and n ob w arbitrary: w' and w'
       rule: Subscriber_complete_observer_complete.induct)
  case (1 this w)
  then show ?case by simp
next
  case (2 n this w)
  from "2.prems" obtain w2 where
    h: "(if has_complete (observer (heap (stop this w) ! this))
         then observer_complete n (observer (heap (stop this w) ! this)) (stop this w)
         else Some (stop this w)) = Some w2"
    and u: "Subscription_unsubscribe n this w2 = Some w'"
    and lt: "this < length (heap w)"
    by (auto simp: Let_def split: if_splits bind_splits)
  have "map teardowns (heap w2) = map teardowns (heap (stop this w))"
  proof (cases "has_complete (observer (heap (stop this w) ! this))")
    case True
    with h have "observer_complete n (observer (heap (stop this w) ! this)) (stop this w) = Some w2"
      by simp
    with "2.IH" lt True show ?thesis by simp
  next
    case False
    with h show ?thesis by simp
  qed
  moreover have "heap w' = heap w2"
    using u by (rule unsubscribe_same_heap)
  ultimately show ?case
    by (simp add: registries_stop)
next
  case (3 n name nx er co w)
  then show ?case by (auto simp: emit_def)
next
  case (4 n project i subscriber w)
  then show ?case by simp
next
  case (5 n time delay subscriber w)
  from 5 have "map teardowns (heap w') = map teardowns (heap (clearTimeout (slots w ! time) w))"
    by (simp split: if_splits)
  then show ?case by (simp add: clearTimeout_def)
qed

lemma complete_any_endpoint:
  assumes "a < length (heap w)"
  shows "Subscriber_complete (Suc n) a w =
         Option.bind
           (if has_complete (observer (heap w ! a))
            then observer_complete n (observer (heap w ! a)) (stop a w)
            else Some (stop a w))
           (\<lambda>w2. map_option (\<lambda>evs. w2\<lparr>trace := trace w2 @ map (Pair (now w2)) evs\<rparr>)
                  (unsubscribe_calls n (heap w2) a))"
  using assms
  by (simp only: Subscriber_complete.simps Let_def observer_stop if_True
        unsubscribe_runs_calls [symmetric])

lemma error_any_endpoint:
  assumes "a < length (heap w)"
  shows "Subscriber_error (Suc n) a e w =
         (if has_error (observer (heap w ! a))
          then observer_error n (observer (heap w ! a)) e (stop a w)
          else Some (stop a w))"
  using assms by (simp add: Let_def observer_stop)

lemma handler_keeps_registries:
  assumes "(if has_complete (observer (heap w ! a))
            then observer_complete n (observer (heap w ! a)) (stop a w)
            else Some (stop a w)) = Some w2"
  shows "map teardowns (heap w2) = map teardowns (heap w)"
proof (cases "has_complete (observer (heap w ! a))")
  case True
  with assms have "observer_complete n (observer (heap w ! a)) (stop a w) = Some w2"
    by simp
  then have "map teardowns (heap w2) = map teardowns (heap (stop a w))"
    by (rule complete_keeps_registries(2))
  then show ?thesis by (simp add: registries_stop)
next
  case False
  with assms show ?thesis by (auto simp: registries_stop)
qed


lemma complete_unfold:
  assumes "a < length (heap w)"
  shows "Subscriber_complete (Suc n) a w =
         Option.bind
           (if has_complete (observer (heap w ! a))
            then observer_complete n (observer (heap w ! a)) (stop a w)
            else Some (stop a w))
           (Subscription_unsubscribe n a)"
  using assms
  by (simp only: Subscriber_complete.simps Let_def observer_stop if_True)

lemma complete_through_operator:
  assumes ol: "operator_link w d s name nx er co tds"
    and fw: "observer_complete (Suc (Suc (Suc n))) (observer (heap w ! s)) (stop s w) =
                 Subscriber_complete (Suc (Suc (Suc n))) d p"
    and pre: "heap p = heap (stop s w)" "trace p = trace w" "now p = now w"
      "counters p = counters w"
    and hc: "has_complete (observer (heap w ! s))"
  shows "\<exists>w'. Subscriber_complete (Suc (Suc (Suc (Suc n)))) s w = Some w' \<and>
           heap w' = (heap w)[s := (heap w ! s)\<lparr>isStopped := True\<rparr>,
                              d := (heap w ! d)\<lparr>isStopped := True\<rparr>] \<and>
           trace w' = trace w @ map (Pair (now w))
             ((if co then [CompleteCalled name] else []) @
              concat (map teardown_call tds) @ concat (map teardown_call tds)) \<and>
           now w' = now w \<and> counters w' = counters w \<and> timers w' = timers p"
proof -
  let ?calls = "concat (map teardown_call tds)"
  let ?w1 = "p"
  let ?w2 = "if co then emit (CompleteCalled name) (stop d ?w1) else stop d ?w1"
  let ?w3 = "?w2\<lparr>trace := trace ?w2 @ map (Pair (now ?w2)) ?calls\<rparr>"
  let ?w4 = "?w3\<lparr>trace := trace ?w3 @ map (Pair (now ?w3)) ?calls\<rparr>"
  from ol have d: "d < length (heap w)" and s: "s < length (heap w)" and ds: "d \<noteq> s"
    and od: "observer (heap w ! d) = Partial name nx er co"
    and td: "teardowns (heap w ! d) = [TdSubscription s]"
    and ts: "teardowns (heap w ! s) = tds"
    and oc: "\<forall>t\<in>set tds. of_caller t"
    by (simp_all add: operator_link_def list_all_iff)
  have h1: "heap ?w1 = (heap w)[s := (heap w ! s)\<lparr>isStopped := True\<rparr>]"
    by (simp add: pre stop_def)
  have d1: "d < length (heap ?w1)" and od1: "observer (heap ?w1 ! d) = Partial name nx er co"
    using d ds od by (simp_all add: h1)
  have cd: "Subscriber_complete (Suc (Suc (Suc n))) d ?w1 =
            Subscription_unsubscribe (Suc (Suc n)) d ?w2"
    using d1 od1 by (rule complete_partial)
  have h2: "heap ?w2 = (heap w)[s := (heap w ! s)\<lparr>isStopped := True\<rparr>,
                                 d := (heap w ! d)\<lparr>isStopped := True\<rparr>]"
    using ds by (simp add: emit_def stop_def h1 pre)
  have d2: "d < length (heap ?w2)" and s2: "s < length (heap ?w2)"
    and td2: "teardowns (heap ?w2 ! d) = [TdSubscription s]"
    and ts2: "teardowns (heap ?w2 ! s) = tds"
    using d s ds td ts by (simp_all add: h2)
  have us: "Subscription_unsubscribe (Suc n) s ?w2 = Some ?w3"
    using unsubscribe_of_caller [OF s2, of n] oc ts2 by simp
  have ud: "Subscription_unsubscribe (Suc (Suc n)) d ?w2 = Some ?w3"
    using d2 td2 us by (simp split: option.splits)
  have s3: "s < length (heap ?w3)" and ts3: "teardowns (heap ?w3 ! s) = tds"
    using s2 ts2 by simp_all
  have us3: "Subscription_unsubscribe (Suc (Suc (Suc n))) s ?w3 = Some ?w4"
    using unsubscribe_of_caller [OF s3, of "Suc (Suc n)"] oc ts3 by simp
  have c: "Subscriber_complete (Suc (Suc (Suc (Suc n)))) s w = Some ?w4"
    using hc
    by (simp only: complete_unfold [OF s] if_True fw cd ud bind.bind_lunit us3)
  have tr: "trace ?w4 = trace w @ map (Pair (now w))
             ((if co then [CompleteCalled name] else []) @ ?calls @ ?calls)"
    by (simp add: emit_def stop_fields pre)
  have h4: "heap ?w4 = (heap w)[s := (heap w ! s)\<lparr>isStopped := True\<rparr>,
                                 d := (heap w ! d)\<lparr>isStopped := True\<rparr>]"
    using h2 by simp
  have f4: "now ?w4 = now w" "counters ?w4 = counters w" "timers ?w4 = timers p"
    by (simp_all add: emit_def stop_def pre)
  show ?thesis
    using c tr h4 f4 by blast
qed


lemma complete_through_map:
  assumes "operator_link w d s name nx er co tds"
    and "observer (heap w ! s) = MapInline project c d"
  shows "\<exists>w'. Subscriber_complete (Suc (Suc (Suc (Suc n)))) s w = Some w' \<and>
           heap w' = (heap w)[s := (heap w ! s)\<lparr>isStopped := True\<rparr>,
                              d := (heap w ! d)\<lparr>isStopped := True\<rparr>] \<and>
           trace w' = trace w @ map (Pair (now w))
             ((if co then [CompleteCalled name] else []) @
              concat (map teardown_call tds) @ concat (map teardown_call tds)) \<and>
           now w' = now w \<and> counters w' = counters w \<and> timers w' = timers w"
proof -
  have t: "timers (stop s w) = timers w"
    by (simp add: stop_def)
  have "\<exists>w'. Subscriber_complete (Suc (Suc (Suc (Suc n)))) s w = Some w' \<and>
           heap w' = (heap w)[s := (heap w ! s)\<lparr>isStopped := True\<rparr>,
                              d := (heap w ! d)\<lparr>isStopped := True\<rparr>] \<and>
           trace w' = trace w @ map (Pair (now w))
             ((if co then [CompleteCalled name] else []) @
              concat (map teardown_call tds) @ concat (map teardown_call tds)) \<and>
           now w' = now w \<and> counters w' = counters w \<and> timers w' = timers (stop s w)"
    using assms
    by (intro complete_through_operator [where p = "stop s w"])
       (simp_all add: has_complete_def stop_fields stop_def)
  then show ?thesis
    by (simp only: t)
qed

lemma complete_through_debounce:
  assumes "operator_link w d s name nx er co tds"
    and "observer (heap w ! s) = DebounceInline time delay d" and "time < length (slots w)"
  shows "\<exists>w'. Subscriber_complete (Suc (Suc (Suc (Suc n)))) s w = Some w' \<and>
           heap w' = (heap w)[s := (heap w ! s)\<lparr>isStopped := True\<rparr>,
                              d := (heap w ! d)\<lparr>isStopped := True\<rparr>] \<and>
           trace w' = trace w @ map (Pair (now w))
             ((if co then [CompleteCalled name] else []) @
              concat (map teardown_call tds) @ concat (map teardown_call tds)) \<and>
           now w' = now w \<and> counters w' = counters w"
proof -
  have "\<exists>w'. Subscriber_complete (Suc (Suc (Suc (Suc n)))) s w = Some w' \<and>
           heap w' = (heap w)[s := (heap w ! s)\<lparr>isStopped := True\<rparr>,
                              d := (heap w ! d)\<lparr>isStopped := True\<rparr>] \<and>
           trace w' = trace w @ map (Pair (now w))
             ((if co then [CompleteCalled name] else []) @
              concat (map teardown_call tds) @ concat (map teardown_call tds)) \<and>
           now w' = now w \<and> counters w' = counters w \<and>
           timers w' = timers (clearTimeout (slots (stop s w) ! time) (stop s w))"
    using assms
    by (intro complete_through_operator
          [where p = "clearTimeout (slots (stop s w) ! time) (stop s w)"])
       (simp_all add: has_complete_def stop_fields clearTimeout_def stop_def)
  then show ?thesis
    by blast
qed


text \<open>
  Claim C3. For every endpoint, whatever observer it wraps: \<^verbatim>\<open>complete()\<close> stops the
  endpoint, calls the observer's \<^verbatim>\<open>complete\<close> if it is defined, and then always runs the
  endpoint's own \<^verbatim>\<open>unsubscribe()\<close>, which adds the calls \<open>unsubscribe_calls\<close> reads off the
  registries; the handler leaves every registry as it was. \<^verbatim>\<open>error(e)\<close> stops the
  endpoint and calls the observer's \<^verbatim>\<open>error\<close> if it is defined, and that is all: no
  \<^verbatim>\<open>error\<close> call on any subscriber adds the call of a teardown. Around an observer of the
  caller, \<^verbatim>\<open>complete()\<close> with teardowns of the caller returns and the trace grows by the
  observer's call and then by the call of every teardown, in order, and \<^verbatim>\<open>error(e)\<close>
  returns and the trace grows by the observer's call alone. On the upstream subscriber
  of an operator, after the subscription has returned, \<^verbatim>\<open>complete()\<close> returns, both
  subscribers are stopped, and the upstream's teardowns are called twice: once by the
  \<^verbatim>\<open>unsubscribe()\<close> of the endpoint downstream, which holds the upstream subscriber, and
  once by the upstream subscriber's own.
\<close>

theorem complete_unsubscribes_error_does_not:
  assumes "a < length (heap w)"
  shows "Subscriber_complete (Suc n) a w =
           Option.bind
             (if has_complete (observer (heap w ! a))
              then observer_complete n (observer (heap w ! a)) (stop a w)
              else Some (stop a w))
             (Subscription_unsubscribe n a) \<and>
         Subscriber_complete (Suc n) a w =
           Option.bind
             (if has_complete (observer (heap w ! a))
              then observer_complete n (observer (heap w ! a)) (stop a w)
              else Some (stop a w))
             (\<lambda>w2. map_option (\<lambda>evs. w2\<lparr>trace := trace w2 @ map (Pair (now w2)) evs\<rparr>)
                    (unsubscribe_calls n (heap w2) a)) \<and>
         ((if has_complete (observer (heap w ! a))
           then observer_complete n (observer (heap w ! a)) (stop a w)
           else Some (stop a w)) = Some w2 \<longrightarrow>
            map teardowns (heap w2) = map teardowns (heap w)) \<and>
         Subscriber_error (Suc n) a e w =
           (if has_error (observer (heap w ! a))
            then observer_error n (observer (heap w ! a)) e (stop a w)
            else Some (stop a w)) \<and>
         isStopped (heap (stop a w) ! a) \<and>
         (\<forall>m w'. Subscriber_complete m a w = Some w' \<or> Subscriber_error m a e w = Some w' \<longrightarrow>
            isStopped (heap w' ! a)) \<and>
         (\<forall>m b e' w'. Subscriber_error m b e' w = Some w' \<longrightarrow>
            teardown_calls w' = teardown_calls w) \<and>
         (observer (heap w ! a) = Partial name nx er co \<longrightarrow>
            Subscriber_complete (Suc (Suc n)) a w =
              Subscription_unsubscribe (Suc n) a
                (if co then emit (CompleteCalled name) (stop a w) else stop a w) \<and>
            ((\<forall>td\<in>set (teardowns (heap w ! a)). of_caller td) \<longrightarrow>
               Subscriber_complete (Suc (Suc n)) a w =
                 Some ((stop a w)\<lparr>trace := trace w @ map (Pair (now w))
                         ((if co then [CompleteCalled name] else []) @
                          concat (map teardown_call (teardowns (heap w ! a))))\<rparr>)) \<and>
            Subscriber_error (Suc n) a e w =
              Some ((stop a w)\<lparr>trace := trace w @ map (Pair (now w))
                      (if er then [ErrorCalled name e] else [])\<rparr>)) \<and>
         (operator_link w d a name nx er co tds \<and>
          (observer (heap w ! a) = MapInline project c d \<or>
           observer (heap w ! a) = DebounceInline time delay d \<and> time < length (slots w)) \<longrightarrow>
            (\<exists>w'. Subscriber_complete (Suc (Suc (Suc (Suc n)))) a w = Some w' \<and>
               heap w' = (heap w)[a := (heap w ! a)\<lparr>isStopped := True\<rparr>,
                                  d := (heap w ! d)\<lparr>isStopped := True\<rparr>] \<and>
               trace w' = trace w @ map (Pair (now w))
                 ((if co then [CompleteCalled name] else []) @
                  concat (map teardown_call tds) @ concat (map teardown_call tds))))"
proof -
  have A: "Subscriber_complete (Suc n) a w =
           Option.bind
             (if has_complete (observer (heap w ! a))
              then observer_complete n (observer (heap w ! a)) (stop a w)
              else Some (stop a w))
             (Subscription_unsubscribe n a)"
    using assms by (rule complete_unfold)
  have B: "Subscriber_complete (Suc n) a w =
           Option.bind
             (if has_complete (observer (heap w ! a))
              then observer_complete n (observer (heap w ! a)) (stop a w)
              else Some (stop a w))
             (\<lambda>w2. map_option (\<lambda>evs. w2\<lparr>trace := trace w2 @ map (Pair (now w2)) evs\<rparr>)
                    (unsubscribe_calls n (heap w2) a))"
    using assms by (rule complete_any_endpoint)
  have C: "(if has_complete (observer (heap w ! a))
           then observer_complete n (observer (heap w ! a)) (stop a w)
           else Some (stop a w)) = Some w2 \<longrightarrow>
            map teardowns (heap w2) = map teardowns (heap w)"
    by (rule impI) (rule handler_keeps_registries)
  have D: "Subscriber_error (Suc n) a e w =
           (if has_error (observer (heap w ! a))
            then observer_error n (observer (heap w ! a)) e (stop a w)
            else Some (stop a w))"
    using assms by (rule error_any_endpoint)
  have E: "isStopped (heap (stop a w) ! a)"
    using assms by (rule stop_stops)
  have F: "\<forall>m w'. Subscriber_complete m a w = Some w' \<or> Subscriber_error m a e w = Some w' \<longrightarrow>
            isStopped (heap w' ! a)"
    by (auto dest: complete_stops error_stops)
  have G: "\<forall>m b e' w'. Subscriber_error m b e' w = Some w' \<longrightarrow>
            teardown_calls w' = teardown_calls w"
    by (intro allI impI) (rule error_calls_no_teardown(1))
  have H: "observer (heap w ! a) = Partial name nx er co \<longrightarrow>
            Subscriber_complete (Suc (Suc n)) a w =
              Subscription_unsubscribe (Suc n) a
                (if co then emit (CompleteCalled name) (stop a w) else stop a w) \<and>
            ((\<forall>td\<in>set (teardowns (heap w ! a)). of_caller td) \<longrightarrow>
               Subscriber_complete (Suc (Suc n)) a w =
                 Some ((stop a w)\<lparr>trace := trace w @ map (Pair (now w))
                         ((if co then [CompleteCalled name] else []) @
                          concat (map teardown_call (teardowns (heap w ! a))))\<rparr>)) \<and>
            Subscriber_error (Suc n) a e w =
              Some ((stop a w)\<lparr>trace := trace w @ map (Pair (now w))
                      (if er then [ErrorCalled name e] else [])\<rparr>)"
  proof (intro impI conjI)
    assume ob: "observer (heap w ! a) = Partial name nx er co"
    show "Subscriber_complete (Suc (Suc n)) a w =
              Subscription_unsubscribe (Suc n) a
                (if co then emit (CompleteCalled name) (stop a w) else stop a w)"
      using assms ob by (rule complete_partial)
    show "Subscriber_error (Suc n) a e w =
              Some ((stop a w)\<lparr>trace := trace w @ map (Pair (now w))
                      (if er then [ErrorCalled name e] else [])\<rparr>)"
      by (simp only: error_partial [OF assms ob]) (simp add: emit_def stop_fields)
    assume "\<forall>td\<in>set (teardowns (heap w ! a)). of_caller td"
    with assms ob show "Subscriber_complete (Suc (Suc n)) a w =
                 Some ((stop a w)\<lparr>trace := trace w @ map (Pair (now w))
                         ((if co then [CompleteCalled name] else []) @
                          concat (map teardown_call (teardowns (heap w ! a))))\<rparr>)"
      by (rule complete_of_caller)
  qed
  have I: "operator_link w d a name nx er co tds \<and>
          (observer (heap w ! a) = MapInline project c d \<or>
           observer (heap w ! a) = DebounceInline time delay d \<and> time < length (slots w)) \<longrightarrow>
            (\<exists>w'. Subscriber_complete (Suc (Suc (Suc (Suc n)))) a w = Some w' \<and>
               heap w' = (heap w)[a := (heap w ! a)\<lparr>isStopped := True\<rparr>,
                                  d := (heap w ! d)\<lparr>isStopped := True\<rparr>] \<and>
               trace w' = trace w @ map (Pair (now w))
                 ((if co then [CompleteCalled name] else []) @
                  concat (map teardown_call tds) @ concat (map teardown_call tds)))"
    using complete_through_map [of w d a name nx er co tds project c n]
      complete_through_debounce [of w d a name nx er co tds time delay n]
    by blast
  show ?thesis
    by (intro conjI) (rule A, rule B, rule C, rule D, rule E, rule F, rule G, rule H, rule I)
qed


theorem complete_unsubscribes_error_does_not_witness:
  "0 < length (heap one_endpoint) \<and>
   observer (heap one_endpoint ! 0) = Partial ''o'' True True True \<and>
   map_option trace (Subscriber_complete (Suc (Suc 0)) 0 one_endpoint) =
     Some [(0, CompleteCalled ''o''), (0, FunctionCalled ''release'' []),
           (0, UnsubscribeCalled ''upstream'')] \<and>
   map_option trace (Subscriber_error (Suc 0) 0 7 one_endpoint) =
     Some [(0, ErrorCalled ''o'' 7)] \<and>
   Subscriber_error (Suc 0) 0 7 one_endpoint = Some errored_endpoint \<and>
   teardown_calls errored_endpoint = teardown_calls one_endpoint \<and>
   operator_link map_subscribed 0 1 ''o'' True True True [TdFunction ''cleanup''] \<and>
   observer (heap map_subscribed ! 1) = MapInline (\<lambda>x i. 2 * x) 0 0 \<and>
   map_option (\<lambda>w. (map isStopped (heap w), trace w))
     (Subscriber_complete (Suc (Suc (Suc (Suc 0)))) 1 map_subscribed) =
     Some ([True, True],
           [(0, CompleteCalled ''o''), (0, FunctionCalled ''cleanup'' []),
            (0, FunctionCalled ''cleanup'' [])])"
proof -
  have l: "0 < length (heap one_endpoint)"
    by (simp add: one_endpoint_def)
  have ob: "observer (heap one_endpoint ! 0) = Partial ''o'' True True True"
    by (simp add: one_endpoint_def)
  have oc: "\<forall>td\<in>set (teardowns (heap one_endpoint ! 0)). of_caller td"
    by (simp add: one_endpoint_def)
  note T = complete_unsubscribes_error_does_not
             [OF l, where n = 0 and e = 7 and name = "''o''" and nx = True and er = True
               and co = True]
  note G = T [THEN conjunct2, THEN conjunct2, THEN conjunct2, THEN conjunct2, THEN conjunct2,
              THEN conjunct2, THEN conjunct1, rule_format, OF one_endpoint_error]
  note H = T [THEN conjunct2, THEN conjunct2, THEN conjunct2, THEN conjunct2, THEN conjunct2,
              THEN conjunct2, THEN conjunct2, THEN conjunct1, THEN mp, OF ob]
  note c = H [THEN conjunct2, THEN conjunct1, THEN mp, OF oc]
  note e = H [THEN conjunct2, THEN conjunct2]
  have c': "map_option trace (Subscriber_complete (Suc (Suc 0)) 0 one_endpoint) =
     Some [(0, CompleteCalled ''o''), (0, FunctionCalled ''release'' []),
           (0, UnsubscribeCalled ''upstream'')]"
    by (simp only: c) (simp add: one_endpoint_def stop_def)
  have e': "map_option trace (Subscriber_error (Suc 0) 0 7 one_endpoint) =
     Some [(0, ErrorCalled ''o'' 7)]"
    by (simp only: e) (simp add: one_endpoint_def stop_def)
  have l2: "1 < length (heap map_subscribed)"
    by (simp add: map_subscribed_def)
  have ol: "operator_link map_subscribed 0 1 ''o'' True True True [TdFunction ''cleanup'']"
    by (simp add: operator_link_def map_subscribed_def)
  have obm: "observer (heap map_subscribed ! 1) = MapInline (\<lambda>x i. 2 * x) 0 0"
    by (simp add: map_subscribed_def)
  note T2 = complete_unsubscribes_error_does_not
              [OF l2, where n = 0 and d = 0 and name = "''o''" and nx = True and er = True
                and co = True and tds = "[TdFunction ''cleanup'']"
                and project = "\<lambda>x i. 2 * x" and c = 0]
  from T2 [THEN conjunct2, THEN conjunct2, THEN conjunct2, THEN conjunct2, THEN conjunct2,
           THEN conjunct2, THEN conjunct2, THEN conjunct2, THEN mp,
           OF conjI [OF ol disjI1 [OF obm]]]
  obtain w' where
    r: "Subscriber_complete (Suc (Suc (Suc (Suc 0)))) 1 map_subscribed = Some w'"
    and h: "heap w' = (heap map_subscribed)[1 := (heap map_subscribed ! 1)\<lparr>isStopped := True\<rparr>,
                                  0 := (heap map_subscribed ! 0)\<lparr>isStopped := True\<rparr>]"
    and t: "trace w' = trace map_subscribed @ map (Pair (now map_subscribed))
                 ((if True then [CompleteCalled ''o''] else []) @
                  concat (map teardown_call [TdFunction ''cleanup'']) @
                  concat (map teardown_call [TdFunction ''cleanup'']))"
    by blast
  have m: "map_option (\<lambda>w. (map isStopped (heap w), trace w))
     (Subscriber_complete (Suc (Suc (Suc (Suc 0)))) 1 map_subscribed) =
     Some ([True, True],
           [(0, CompleteCalled ''o''), (0, FunctionCalled ''cleanup'' []),
            (0, FunctionCalled ''cleanup'' [])])"
    by (simp only: r) (simp add: h t map_subscribed_def)
  from l ob c' e' one_endpoint_error G ol obm m show ?thesis
    by (intro conjI)
qed

lemma foldl_Subscription_add:
  "teardowns (foldl (\<lambda>r t. Subscription_add t r) this ts) =
   teardowns this @ concat (map (case_option [] (\<lambda>t. [t])) ts)"
  by (induction ts arbitrary: this) (auto simp: Subscription_add_def split: option.splits)

text \<open>
  Claim C4. \<^verbatim>\<open>add\<close> leaves the registry as it is for \<^verbatim>\<open>void\<close> and appends any other
  action at the end, whether or not it is there already and however long the registry is;
  so after a sequence of registrations the registry holds the actions that are not
  \<^verbatim>\<open>void\<close>, in the order of registration. \<^verbatim>\<open>unsubscribe()\<close> on a registry of teardowns of
  the caller returns, and the trace grows by exactly one call for each entry, in the order
  of the registry: a function is called with no argument, of an unsubscribable its
  \<^verbatim>\<open>unsubscribe\<close> is called. An entry that is a subscription of the library has its own
  \<^verbatim>\<open>unsubscribe()\<close> run. For every registry, whatever its entries, and at every depth,
  \<^verbatim>\<open>unsubscribe()\<close> returns exactly when \<open>unsubscribe_calls\<close> gives the calls, and then it
  adds those calls to the trace, in that order, and changes nothing else.
\<close>

theorem registry_runs_in_registration_order:
  "Subscription_add None this = this \<and>
   Subscription_add (Some t) this = this\<lparr>teardowns := teardowns this @ [t]\<rparr> \<and>
   teardowns (foldl (\<lambda>r t. Subscription_add t r) this ts) =
     teardowns this @ concat (map (case_option [] (\<lambda>t. [t])) ts) \<and>
   (a < length (heap w) \<longrightarrow>
      add a None w = Some w \<and>
      (\<exists>w'. add a (Some t) w = Some w' \<and>
            teardowns (heap w' ! a) = teardowns (heap w ! a) @ [t])) \<and>
   (a < length (heap w) \<and> (\<forall>td\<in>set (teardowns (heap w ! a)). of_caller td) \<longrightarrow>
      Subscription_unsubscribe (Suc n) a w =
        Some (w\<lparr>trace := trace w @
                map (Pair (now w)) (concat (map teardown_call (teardowns (heap w ! a))))\<rparr>)) \<and>
   (a < length (heap w) \<and> teardowns (heap w ! a) = [TdSubscription b] \<longrightarrow>
      Subscription_unsubscribe (Suc n) a w = Subscription_unsubscribe n b w) \<and>
   Subscription_unsubscribe m a w =
     map_option (\<lambda>evs. w\<lparr>trace := trace w @ map (Pair (now w)) evs\<rparr>)
       (unsubscribe_calls m (heap w) a) \<and>
   (a < length (heap w) \<longrightarrow>
      unsubscribe_calls (Suc m) (heap w) a =
        map_option concat
          (those (map (entry_calls (unsubscribe_calls m (heap w))) (teardowns (heap w ! a)))))"
proof -
  have 1: "Subscription_add None this = this"
    and 2: "Subscription_add (Some t) this = this\<lparr>teardowns := teardowns this @ [t]\<rparr>"
    by (simp_all add: Subscription_add_def)
  have 4: "a < length (heap w) \<longrightarrow>
      add a None w = Some w \<and>
      (\<exists>w'. add a (Some t) w = Some w' \<and>
            teardowns (heap w' ! a) = teardowns (heap w ! a) @ [t])"
    by (simp add: add_def Subscription_add_def)
  have 5: "a < length (heap w) \<and> (\<forall>td\<in>set (teardowns (heap w ! a)). of_caller td) \<longrightarrow>
      Subscription_unsubscribe (Suc n) a w =
        Some (w\<lparr>trace := trace w @
                map (Pair (now w)) (concat (map teardown_call (teardowns (heap w ! a))))\<rparr>)"
    using unsubscribe_of_caller by blast
  have 6: "a < length (heap w) \<and> teardowns (heap w ! a) = [TdSubscription b] \<longrightarrow>
      Subscription_unsubscribe (Suc n) a w = Subscription_unsubscribe n b w"
    by (simp split: option.splits)
  have 8: "a < length (heap w) \<longrightarrow>
      unsubscribe_calls (Suc m) (heap w) a =
        map_option concat
          (those (map (entry_calls (unsubscribe_calls m (heap w))) (teardowns (heap w ! a))))"
    by simp
  show ?thesis
    by (intro conjI)
       (rule 1, rule 2, rule foldl_Subscription_add, rule 4, rule 5, rule 6,
        rule unsubscribe_runs_calls, rule 8)
qed

theorem registry_runs_in_registration_order_witness:
  "teardowns (foldl (\<lambda>r t. Subscription_add t r) \<lparr>teardowns = []\<rparr>
      [Some (TdFunction ''f''), None, Some (TdUnsubscribable ''u''), Some (TdFunction ''f'')]) =
     [TdFunction ''f'', TdUnsubscribable ''u'', TdFunction ''f''] \<and>
   add 0 None one_endpoint = Some one_endpoint \<and>
   map_option (\<lambda>w. teardowns (heap w ! 0)) (add 0 (Some (TdFunction ''release'')) one_endpoint) =
     Some [TdFunction ''release'', TdUnsubscribable ''upstream'', TdFunction ''release''] \<and>
   map_option trace (Subscription_unsubscribe (Suc 0) 0 one_endpoint) =
     Some [(0, FunctionCalled ''release'' []), (0, UnsubscribeCalled ''upstream'')] \<and>
   unsubscribe_calls (Suc (Suc 0)) (heap mixed_registry) 0 =
     Some [FunctionCalled ''a'' [], UnsubscribeCalled ''b'', FunctionCalled ''c'' []] \<and>
   Subscription_unsubscribe (Suc (Suc 0)) 0 mixed_registry =
     Some (mixed_registry\<lparr>trace := [(0, FunctionCalled ''a'' []), (0, UnsubscribeCalled ''b''),
                                      (0, FunctionCalled ''c'' [])]\<rparr>)"
proof -
  have l: "0 < length (heap one_endpoint)"
    by (simp add: one_endpoint_def)
  have oc: "\<forall>td\<in>set (teardowns (heap one_endpoint ! 0)). of_caller td"
    by (simp add: one_endpoint_def)
  from registry_runs_in_registration_order
         [of "\<lparr>teardowns = []\<rparr>" "TdFunction ''release''"
             "[Some (TdFunction ''f''), None, Some (TdUnsubscribable ''u''), Some (TdFunction ''f'')]"
             0 one_endpoint 0 0 0] l oc
  have "teardowns (foldl (\<lambda>r t. Subscription_add t r) \<lparr>teardowns = []\<rparr>
          [Some (TdFunction ''f''), None, Some (TdUnsubscribable ''u''), Some (TdFunction ''f'')]) =
        teardowns \<lparr>teardowns = []\<rparr> @ concat (map (case_option [] (\<lambda>t. [t]))
          [Some (TdFunction ''f''), None, Some (TdUnsubscribable ''u''), Some (TdFunction ''f'')])"
    and "add 0 None one_endpoint = Some one_endpoint"
    and "\<exists>w'. add 0 (Some (TdFunction ''release'')) one_endpoint = Some w' \<and>
            teardowns (heap w' ! 0) = teardowns (heap one_endpoint ! 0) @ [TdFunction ''release'']"
    and "Subscription_unsubscribe (Suc 0) 0 one_endpoint =
        Some (one_endpoint\<lparr>trace := trace one_endpoint @
                map (Pair (now one_endpoint))
                  (concat (map teardown_call (teardowns (heap one_endpoint ! 0))))\<rparr>)"
    by blast+
  then have first: "teardowns (foldl (\<lambda>r t. Subscription_add t r) \<lparr>teardowns = []\<rparr>
      [Some (TdFunction ''f''), None, Some (TdUnsubscribable ''u''), Some (TdFunction ''f'')]) =
     [TdFunction ''f'', TdUnsubscribable ''u'', TdFunction ''f''] \<and>
   add 0 None one_endpoint = Some one_endpoint \<and>
   map_option (\<lambda>w. teardowns (heap w ! 0)) (add 0 (Some (TdFunction ''release'')) one_endpoint) =
     Some [TdFunction ''release'', TdUnsubscribable ''upstream'', TdFunction ''release''] \<and>
   map_option trace (Subscription_unsubscribe (Suc 0) 0 one_endpoint) =
     Some [(0, FunctionCalled ''release'' []), (0, UnsubscribeCalled ''upstream'')]"
    by (auto simp: one_endpoint_def)
  have calls: "unsubscribe_calls (Suc (Suc 0)) (heap mixed_registry) 0 =
     Some [FunctionCalled ''a'' [], UnsubscribeCalled ''b'', FunctionCalled ''c'' []]"
    by (simp add: mixed_registry_def)
  note R = registry_runs_in_registration_order
             [where a = 0 and w = mixed_registry and m = "Suc (Suc 0)", THEN conjunct2,
              THEN conjunct2, THEN conjunct2, THEN conjunct2, THEN conjunct2, THEN conjunct2,
              THEN conjunct1]
  have run: "Subscription_unsubscribe (Suc (Suc 0)) 0 mixed_registry =
     Some (mixed_registry\<lparr>trace := [(0, FunctionCalled ''a'' []), (0, UnsubscribeCalled ''b''),
                                      (0, FunctionCalled ''c'' [])]\<rparr>)"
    by (simp only: R calls) (simp add: mixed_registry_def)
  from first calls run show ?thesis
    by blast
qed

text \<open>
  Claim C10. \<^verbatim>\<open>unsubscribe()\<close> on an endpoint that is not stopped leaves it not stopped,
  and a \<^verbatim>\<open>next(v)\<close> after it is forwarded to the \<^verbatim>\<open>next\<close> handler of the wrapped observer.
\<close>

theorem unsubscribe_does_not_stop:
  assumes "a < length (heap w)" and "observer (heap w ! a) = Partial name True er co"
    and "\<not> isStopped (heap w ! a)"
    and "Subscription_unsubscribe n a w = Some w1"
  shows "\<not> isStopped (heap w1 ! a) \<and>
         Subscriber_next (Suc k) a v w1 = Some (emit (NextCalled name v) w1)"
proof -
  from assms(4) have "heap w1 = heap w"
    by (rule unsubscribe_same_heap)
  with assms(1-3) show ?thesis
    by (simp add: has_next_def)
qed

theorem unsubscribe_does_not_stop_witness:
  "0 < length (heap one_endpoint) \<and>
   observer (heap one_endpoint ! 0) = Partial ''o'' True True True \<and>
   \<not> isStopped (heap one_endpoint ! 0) \<and>
   Subscription_unsubscribe (Suc 0) 0 one_endpoint =
     Some (one_endpoint\<lparr>trace := [(0, FunctionCalled ''release'' []),
                                   (0, UnsubscribeCalled ''upstream'')]\<rparr>) \<and>
   map_option trace (Subscriber_next (Suc 0) 0 5
      (one_endpoint\<lparr>trace := [(0, FunctionCalled ''release'' []),
                               (0, UnsubscribeCalled ''upstream'')]\<rparr>)) =
     Some [(0, FunctionCalled ''release'' []), (0, UnsubscribeCalled ''upstream''),
           (0, NextCalled ''o'' 5)]"
proof -
  have l: "0 < length (heap one_endpoint)"
    by (simp add: one_endpoint_def)
  have ob: "observer (heap one_endpoint ! 0) = Partial ''o'' True True True"
    by (simp add: one_endpoint_def)
  have ns: "\<not> isStopped (heap one_endpoint ! 0)"
    by (simp add: one_endpoint_def)
  have u: "Subscription_unsubscribe (Suc 0) 0 one_endpoint =
     Some (one_endpoint\<lparr>trace := [(0, FunctionCalled ''release'' []),
                                   (0, UnsubscribeCalled ''upstream'')]\<rparr>)"
    by (simp add: one_endpoint_def emit_def)
  from unsubscribe_does_not_stop [OF l ob ns u, of 0 5] l ob ns u show ?thesis
    by (simp add: emit_def one_endpoint_def)
qed

section \<open>Producers that notify while they run\<close>


lemma unsubscribe_empty:
  "a < length (heap w) \<Longrightarrow> teardowns (heap w ! a) = [] \<Longrightarrow>
   Subscription_unsubscribe (Suc n) a w = Some w"
  by simp













section \<open>The operator map\<close>

lemma received_Cons:
  "received name nx er co st (x # xs) =
   received name nx er co st [x] @ received name nx er co (st \<or> terminal x) xs"
  by (cases x) simp_all





























text \<open>
  The demonstration script of the repository: a producer that sends 1 from a timeout of
  3000 and returns an unsubscribable, piped through \<^verbatim>\<open>map((i) => ++i)\<close>, and an observer that
  defines \<^verbatim>\<open>next\<close> and \<^verbatim>\<open>complete\<close>. When the clock has run, the observer has received 2,
  at time 3000.
\<close>

lemma demonstration_script:
  "map_option trace
     (Option.bind
        (Observable_subscribe (Suc 0)
           (Observable_pipe [map_op (\<lambda>i _. i + 1)]
              (Observable (Script [Later 3000 (Next (1 :: int))]
                             (Some (TdUnsubscribable ''done''))) ''user''))
           (Partial ''log'' True False True) empty_world)
        (\<lambda>(a, w). run_until (Suc (Suc 0)) (Suc (Suc (Suc 0))) 5000 w)) =
   Some [(3000, NextCalled ''log'' 2)]"
  by (simp add: Observable_pipe_def pipeFromArray_def map_op_def empty_world_def Let_def add_def
        Subscription_add_def setTimeout_def has_next_def emit_def)

section \<open>The operator debounceTime\<close>






















text \<open>
  The same burst with the upstream's own timeouts on the host's event loop: the producer
  sets timeouts of 0, 30, 60 and 90 that send 1, 2, 3 and 4, and the clock runs.
\<close>

lemma debounceTime_under_the_event_loop:
  "map_option trace
     (Option.bind
        (Observable_subscribe (Suc 0)
           (fst (debounceTime 100 empty_world)
              (Observable (Script [Later 0 (Next 1), Later 30 (Next 2), Later 60 (Next 3),
                                   Later 90 (Next (4 :: int))] None) ''user''))
           (Partial ''o'' True True True) (snd (debounceTime 100 empty_world)))
        (\<lambda>(a, w). run_until (Suc (Suc (Suc (Suc (Suc (Suc 0)))))) (Suc (Suc 0)) 1000 w)) =
   Some [(190, NextCalled ''o'' 4)]"
  by (simp add: debounceTime_def empty_world_def Let_def add_def Subscription_add_def
        setTimeout_def clearTimeout_def has_next_def emit_def)




end
